theory Spec2Isabelle
  imports Main "HOL-Library.Word"
begin

unbundle bit_operations_syntax

section \<open>Machine types and faults\<close>

text \<open>
  The kernel runs on RV64: \<open>uint64\<close> is a 64-bit word and \<open>int\<close> a 32-bit word read in
  two's complement, so the "no group" id \<open>-1\<close> is the word \<open>-1\<close>.
\<close>

type_synonym u64 = "64 word"
type_synonym cint = "32 word"

text \<open>
  What stops the kernel instead of returning: a load or store through the null pointer that
  \<open>get_cow_group\<close> returns, a store behind the last slot of an array, and \<open>panic\<close>.
\<close>

datatype fault = NullDeref | OutOfBounds nat | Panic string

section \<open>kernel/cow.c: the CoW group registry\<close>

definition SHMEM_MAX :: nat where
  "SHMEM_MAX = 100"

text \<open>
  \<open>struct cow_group\<close>. The array \<open>shmem[SHMEM_MAX]\<close> is a list; the global table
  \<open>cow_group[NPROC]\<close> is a list of groups, and a pointer into it is an index.
\<close>

record cow_group =
  group :: cint
  shmem :: "u64 list"
  count :: cint

type_synonym cow_table = "cow_group list"

text \<open>The loop of \<open>get_cow_group\<close>, from slot \<open>i\<close> on.\<close>

fun get_cow_group_from :: "cow_table \<Rightarrow> cint \<Rightarrow> nat \<Rightarrow> nat option" where
  "get_cow_group_from [] g i = None"
| "get_cow_group_from (c # cs) g i =
     (if group c = g then Some i else get_cow_group_from cs g (Suc i))"

definition get_cow_group :: "cow_table \<Rightarrow> cint \<Rightarrow> nat option" where
  "get_cow_group tab g = (if g = - 1 then None else get_cow_group_from tab g 0)"

text \<open>The loop of \<open>cow_group_init\<close>: the first slot whose id is \<open>-1\<close> takes the id.\<close>

fun cow_group_init :: "cow_table \<Rightarrow> cint \<Rightarrow> cow_table" where
  "cow_group_init [] groupno = []"
| "cow_group_init (c # cs) groupno =
     (if group c = - 1 then c\<lparr>group := groupno\<rparr> # cs else c # cow_group_init cs groupno)"

text \<open>\<open>get_cow_group(group)->count\<close>: the pointer is used unchecked.\<close>

definition get_cow_group_count :: "cow_table \<Rightarrow> cint \<Rightarrow> fault + cint" where
  "get_cow_group_count tab g =
     (case get_cow_group tab g of None \<Rightarrow> Inl NullDeref | Some i \<Rightarrow> Inr (count (tab ! i)))"

definition incr_cow_group_count :: "cow_table \<Rightarrow> cint \<Rightarrow> fault + cow_table" where
  "incr_cow_group_count tab g =
     (case get_cow_group_count tab g of
        Inl f \<Rightarrow> Inl f
      | Inr c \<Rightarrow>
          (case get_cow_group tab g of
             None \<Rightarrow> Inl NullDeref
           | Some i \<Rightarrow> Inr (tab[i := (tab ! i)\<lparr>count := c + 1\<rparr>])))"

definition decr_cow_group_count :: "cow_table \<Rightarrow> cint \<Rightarrow> fault + cow_table" where
  "decr_cow_group_count tab g =
     (case get_cow_group_count tab g of
        Inl f \<Rightarrow> Inl f
      | Inr c \<Rightarrow>
          (case get_cow_group tab g of
             None \<Rightarrow> Inl NullDeref
           | Some i \<Rightarrow> Inr (tab[i := (tab ! i)\<lparr>count := c - 1\<rparr>])))"

text \<open>
  The loop of \<open>add_shmem\<close>. \<open>None\<close> is the \<open>return\<close> on a duplicate address; \<open>Some index\<close>
  is the value of \<open>index\<close> when the loop is left, by \<open>break\<close> or by its bound.
\<close>

function add_shmem_scan :: "u64 list \<Rightarrow> u64 \<Rightarrow> nat \<Rightarrow> nat option" where
  "add_shmem_scan sh pa index =
     (if index < SHMEM_MAX then
        (if sh ! index = pa then None
         else if sh ! index = 0 then Some index
         else add_shmem_scan sh pa (Suc index))
      else Some index)"
  by pat_completeness auto
termination
  by (relation "measure (\<lambda>(sh, pa, index). SHMEM_MAX - index)") auto

declare add_shmem_scan.simps [simp del]

text \<open>
  \<open>add_shmem\<close>. The store \<open>shmem[index] = pa\<close> after the loop is not guarded: with
  \<open>index = SHMEM_MAX\<close> it lands behind the array.
\<close>

definition add_shmem :: "cow_table \<Rightarrow> cint \<Rightarrow> u64 \<Rightarrow> fault + cow_table" where
  "add_shmem tab g pa =
     (if g = - 1 then Inr tab
      else
        (case get_cow_group tab g of
           None \<Rightarrow> Inl NullDeref
         | Some i \<Rightarrow>
             (case add_shmem_scan (shmem (tab ! i)) pa 0 of
                None \<Rightarrow> Inr tab
              | Some index \<Rightarrow>
                  if index < SHMEM_MAX
                  then Inr (tab[i := (tab ! i)\<lparr>shmem := (shmem (tab ! i))[index := pa]\<rparr>])
                  else Inl (OutOfBounds index))))"

text \<open>The loop of \<open>is_shmem\<close>, from slot \<open>i\<close> on.\<close>

function is_shmem_scan :: "u64 list \<Rightarrow> u64 \<Rightarrow> nat \<Rightarrow> bool" where
  "is_shmem_scan sh pa i =
     (if i < SHMEM_MAX then
        (if sh ! i = 0 then False
         else if sh ! i = pa then True
         else is_shmem_scan sh pa (Suc i))
      else False)"
  by pat_completeness auto
termination
  by (relation "measure (\<lambda>(sh, pa, i). SHMEM_MAX - i)") auto

declare is_shmem_scan.simps [simp del]

definition is_shmem :: "cow_table \<Rightarrow> cint \<Rightarrow> u64 \<Rightarrow> fault + bool" where
  "is_shmem tab g pa =
     (if g = - 1 then Inr False
      else
        (case get_cow_group tab g of
           None \<Rightarrow> Inl NullDeref
         | Some i \<Rightarrow> Inr (is_shmem_scan (shmem (tab ! i)) pa 0)))"

text \<open>\<open>cow_init\<close> for a table of \<open>NPROC = n\<close> groups (\<open>NPROC\<close> is set in param.h).\<close>

definition cow_init :: "nat \<Rightarrow> cow_table" where
  "cow_init n = replicate n \<lparr>group = - 1, shmem = replicate SHMEM_MAX 0, count = 0\<rparr>"

subsection \<open>Registry states used as concrete inputs\<close>

text \<open>One group, id 7, whose hundred slots hold the frames \<open>0x80000000 + 4096 * k\<close>.\<close>

definition full_table :: cow_table where
  "full_table =
     [\<lparr>group = 7, shmem = map (\<lambda>k. 0x80000000 + 0x1000 * of_nat k) [0..<100], count = 1\<rparr>]"

text \<open>The table of two slots after \<open>cow_init\<close> and \<open>cow_group_init(7)\<close>.\<close>

definition one_group :: cow_table where
  "one_group = cow_group_init (cow_init 2) 7"

section \<open>kernel/cow.c: address-space teardown\<close>

text \<open>
  Modelled from the spec: riscv.h and memlayout.h are not among the sources. The spec keeps
  the page table opaque (\<open>lookupMapping(table, vaddr) \<rightarrow> (frame, flags) | absent\<close>); the macros
  cow.c applies to an entry are those of RISC-V Sv39 as xv6 writes them: the valid bit is
  bit 0, the flags are the low ten bits, and the frame address is the entry shifted right by
  ten and left by twelve. \<open>TRAMPOLINE\<close> is the highest page below \<open>MAXVA = 2^38\<close> and
  \<open>TRAPFRAME\<close> the page under it.
\<close>

type_synonym pte_t = u64

definition PTE_V :: u64 where
  "PTE_V = 1"

definition PTE_FLAGS :: "pte_t \<Rightarrow> u64" where
  "PTE_FLAGS pte = pte AND 0x3FF"

definition PTE2PA :: "pte_t \<Rightarrow> u64" where
  "PTE2PA pte = push_bit 12 (drop_bit 10 pte)"

definition PGROUNDUP :: "u64 \<Rightarrow> u64" where
  "PGROUNDUP sz = (sz + 4096 - 1) AND NOT (4096 - 1)"

definition TRAMPOLINE :: u64 where
  "TRAMPOLINE = 2 ^ 38 - 4096"

definition TRAPFRAME :: u64 where
  "TRAPFRAME = TRAMPOLINE - 4096"

text \<open>
  A page table, seen through \<open>walk(pagetable, a, 0)\<close>: the entry for the page at \<open>a\<close>, or
  \<open>None\<close> where \<open>walk\<close> returns the null pointer because no page-table page holds one.
\<close>

type_synonym pagetable_t = "u64 \<Rightarrow> pte_t option"

text \<open>
  The body of the loop of \<open>uvmunmap_cow\<close> for the page at \<open>a\<close>. The state is the page table
  and the frames handed to \<open>kfree\<close> so far, in order.
\<close>

definition uvmunmap_cow_page ::
  "cow_table \<Rightarrow> cint \<Rightarrow> cint \<Rightarrow> pagetable_t \<times> u64 list \<Rightarrow> u64 \<Rightarrow> fault + pagetable_t \<times> u64 list"
where
  "uvmunmap_cow_page tab do_free g s a =
     (case s of (pagetable, freed) \<Rightarrow>
        (case pagetable a of
           None \<Rightarrow> Inl (Panic ''uvmunmap: walk'')
         | Some pte \<Rightarrow>
             if pte AND PTE_V = 0 then Inr (pagetable, freed)
             else if PTE_FLAGS pte = PTE_V then Inl (Panic ''uvmunmap: not a leaf'')
             else if do_free \<noteq> 0 then
               (case is_shmem tab g (PTE2PA pte) of
                  Inl f \<Rightarrow> Inl f
                | Inr True \<Rightarrow>
                    (case get_cow_group_count tab g of
                       Inl f \<Rightarrow> Inl f
                     | Inr c \<Rightarrow>
                         Inr (pagetable(a \<mapsto> 0),
                              if c = 0 then freed @ [PTE2PA pte] else freed))
                | Inr False \<Rightarrow> Inr (pagetable(a \<mapsto> 0), freed @ [PTE2PA pte]))
             else Inr (pagetable(a \<mapsto> 0), freed)))"

text \<open>
  The loop \<open>for(a = va; a < va + npages*PGSIZE; a += PGSIZE)\<close> on 64-bit words, with
  \<open>e = va + npages*PGSIZE\<close>. The addition wraps, so the loop need not end: \<open>None\<close> is the
  run that never returns.
\<close>

partial_function (option) uvmunmap_cow_loop ::
  "cow_table \<Rightarrow> cint \<Rightarrow> cint \<Rightarrow> u64 \<Rightarrow> u64 \<Rightarrow> pagetable_t \<times> u64 list
     \<Rightarrow> (fault + pagetable_t \<times> u64 list) option"
where
  "uvmunmap_cow_loop tab do_free g e a s =
     (if a < e then
        (case uvmunmap_cow_page tab do_free g s a of
           Inl f \<Rightarrow> Some (Inl f)
         | Inr s' \<Rightarrow> uvmunmap_cow_loop tab do_free g e (a + 4096) s')
      else Some (Inr s))"

definition uvmunmap_cow ::
  "cow_table \<Rightarrow> pagetable_t \<Rightarrow> u64 \<Rightarrow> u64 \<Rightarrow> cint \<Rightarrow> cint
     \<Rightarrow> (fault + pagetable_t \<times> u64 list) option"
where
  "uvmunmap_cow tab pagetable va npages do_free g =
     (if va mod 4096 \<noteq> 0 then Some (Inl (Panic ''uvmunmap: not aligned''))
      else uvmunmap_cow_loop tab do_free g (va + npages * 4096) va (pagetable, []))"

text \<open>
  \<open>uvmfree_cow\<close>. \<open>freewalk\<close> gives back the pages of the page table itself, which this
  view of the page table does not hold; no frame of the address space goes through it.
\<close>

definition uvmfree_cow ::
  "cow_table \<Rightarrow> pagetable_t \<Rightarrow> u64 \<Rightarrow> cint \<Rightarrow> (fault + pagetable_t \<times> u64 list) option"
where
  "uvmfree_cow tab pagetable sz g =
     (if sz > 0 then uvmunmap_cow tab pagetable 0 (PGROUNDUP sz div 4096) 1 g
      else Some (Inr (pagetable, [])))"

text \<open>
  Modelled from the spec: \<open>uvmunmap\<close> of vm.c is not among the sources. The spec's
  \<open>removeMapping(table, vaddr, count, freeUnderlyingFrame)\<close>, as \<open>proc_freepagetable_cow\<close>
  calls it: one page, no frame freed; the entry of the page, where there is one, is cleared.
\<close>

definition uvmunmap_one :: "pagetable_t \<Rightarrow> u64 \<Rightarrow> pagetable_t" where
  "uvmunmap_one pagetable va =
     (case pagetable va of None \<Rightarrow> pagetable | Some pte \<Rightarrow> pagetable(va \<mapsto> 0))"

text \<open>
  \<open>proc_freepagetable_cow\<close>: the registry after it, the page table, and the frames freed.
  The count is decremented last, so the whole unmapping reads the count as it was.
\<close>

definition proc_freepagetable_cow ::
  "cow_table \<Rightarrow> pagetable_t \<Rightarrow> u64 \<Rightarrow> cint
     \<Rightarrow> (fault + cow_table \<times> pagetable_t \<times> u64 list) option"
where
  "proc_freepagetable_cow tab pagetable sz g =
     (case uvmfree_cow tab (uvmunmap_one (uvmunmap_one pagetable TRAMPOLINE) TRAPFRAME) sz g of
        None \<Rightarrow> None
      | Some (Inl f) \<Rightarrow> Some (Inl f)
      | Some (Inr (pagetable', freed)) \<Rightarrow>
          (case decr_cow_group_count tab g of
             Inl f \<Rightarrow> Some (Inl f)
           | Inr tab' \<Rightarrow> Some (Inr (tab', pagetable', freed))))"

text \<open>
  \<open>n\<close> turns of the loop of \<open>uvmunmap_cow\<close> from the page at \<open>a\<close>, by recursion on \<open>n\<close>: what
  the loop computes when \<open>va + npages*PGSIZE\<close> does not wrap.
\<close>

fun unmap_pages ::
  "cow_table \<Rightarrow> cint \<Rightarrow> cint \<Rightarrow> pagetable_t \<times> u64 list \<Rightarrow> u64 \<Rightarrow> nat
     \<Rightarrow> fault + pagetable_t \<times> u64 list"
where
  "unmap_pages tab do_free g s a 0 = Inr s"
| "unmap_pages tab do_free g s a (Suc n) =
     (case uvmunmap_cow_page tab do_free g s a of
        Inl f \<Rightarrow> Inl f
      | Inr s' \<Rightarrow> unmap_pages tab do_free g s' (a + 4096) n)"

text \<open>
  The \<open>n\<close> pages from \<open>a\<close> on all have an entry, and an entry that is valid is a leaf: on
  such a range the loop of \<open>uvmunmap_cow\<close> meets neither of its two panics.
\<close>

definition pages_ok :: "pagetable_t \<Rightarrow> u64 \<Rightarrow> nat \<Rightarrow> bool" where
  "pages_ok pagetable a n =
     list_all (\<lambda>k. case pagetable (a + of_nat k * 4096) of
                      None \<Rightarrow> False
                    | Some pte \<Rightarrow> pte AND PTE_V = 0 \<or> PTE_FLAGS pte \<noteq> PTE_V) [0..<n]"

text \<open>
  The test that guards \<open>kfree\<close> in \<open>uvmunmap_cow\<close>, for the frame \<open>pa\<close> of a valid leaf:
  \<open>do_free\<close> is set, and the frame is not in the group's shared set or the group's count is 0.
\<close>

definition frees_frame :: "cow_table \<Rightarrow> cint \<Rightarrow> cint \<Rightarrow> u64 \<Rightarrow> bool" where
  "frees_frame tab do_free g pa =
     (do_free \<noteq> 0 \<and> (is_shmem tab g pa = Inr False \<or> get_cow_group_count tab g = Inr 0))"

subsection \<open>A parent and its forked child, as concrete input\<close>

text \<open>
  The registry after P (group 7) has forked C: the count is 1 and the frame \<open>0x80001000\<close> is
  in the shared set. P maps that frame read-only at 0, a frame of its own at \<open>0x1000\<close>, has
  an entry that is not present at \<open>0x2000\<close>, and maps the trampoline and its trapframe. C
  maps the shared frame at 0 and a frame of its own at \<open>0x1000\<close>.
\<close>

definition pc_table :: cow_table where
  "pc_table =
     [\<lparr>group = 7, shmem = 0x80001000 # replicate 99 0, count = 1\<rparr>,
      \<lparr>group = - 1, shmem = replicate 100 0, count = 0\<rparr>]"

definition pt_parent :: pagetable_t where
  "pt_parent =
     (\<lambda>a. if a = 0 then Some 0x2000041B
          else if a = 0x1000 then Some 0x20000817
          else if a = 0x2000 then Some 0
          else if a = TRAMPOLINE then Some 0x20001C0B
          else if a = TRAPFRAME then Some 0x20002007
          else None)"

definition pt_child :: pagetable_t where
  "pt_child =
     (\<lambda>a. if a = 0 then Some 0x2000041B
          else if a = 0x1000 then Some 0x20000C17
          else if a = TRAMPOLINE then Some 0x20001C0B
          else if a = TRAPFRAME then Some 0x20002407
          else None)"

section \<open>kernel/pfault.c: heap paging\<close>

text \<open>
  Modelled from the spec: \<open>PGSIZE\<close> of riscv.h, which is not among the sources: a page
  of 4096 bytes, four disk blocks of 1024. The sizes \<open>PSASIZE\<close> and \<open>MAXHEAP\<close> of param.h
  are the lengths of the bitmap and of the descriptor table.
\<close>

definition PGSIZE :: nat where
  "PGSIZE = 4096"

text \<open>
  \<open>struct heap_tracker_t\<close> of proc.h, with the four fields pfault.c uses. \<open>loaded\<close> is set
  when the page is written to disk: a descriptor with \<open>loaded = False\<close> is a resident one.
  Block numbers are never negative here, so \<open>startblock\<close> is a natural number.
\<close>

record heap_tracker_t =
  addr :: u64
  last_load_time :: u64
  startblock :: nat
  loaded :: bool

text \<open>
  The first loop of \<open>evict_page_to_disk\<close> ("Find free block") over the bitmap
  \<open>psa_tracker[PSASIZE]\<close>, a list of \<open>PSASIZE\<close> flags, from position \<open>i\<close> on. It returns the
  final \<open>blockno\<close> and the bitmap. When no run of four free blocks is met the loop ends by its
  bound, and nothing after it tells the two ways of leaving it apart.
\<close>

function find_free_blocks :: "bool list \<Rightarrow> nat \<Rightarrow> nat \<Rightarrow> nat \<Rightarrow> nat \<times> bool list" where
  "find_free_blocks tr i blockno freeBlocks =
     (if i < length tr then
        (if \<not> tr ! i then
           (let blockno' = (if freeBlocks = 0 then i else blockno);
                freeBlocks' = freeBlocks + 1
            in if freeBlocks' = 4
               then (blockno', tr[blockno' := True, blockno' + 1 := True,
                                  blockno' + 2 := True, blockno' + 3 := True])
               else find_free_blocks tr (Suc i) blockno' freeBlocks')
         else find_free_blocks tr (Suc i) blockno 0)
      else (blockno, tr))"
  by pat_completeness auto
termination
  by (relation "measure (\<lambda>(tr, i, blockno, freeBlocks). length tr - i)") auto

declare find_free_blocks.simps [simp del]

text \<open>The scan as \<open>evict_page_to_disk\<close> starts it: \<open>blockno = 0\<close>, \<open>freeBlocks = 0\<close>.\<close>

definition alloc_blocks :: "bool list \<Rightarrow> nat \<times> bool list" where
  "alloc_blocks tr = find_free_blocks tr 0 0 0"

text \<open>\<open>n\<close> scans in a row, each on the bitmap the one before left: the block numbers, in order.\<close>

fun alloc_blocks_seq :: "nat \<Rightarrow> bool list \<Rightarrow> nat list \<times> bool list" where
  "alloc_blocks_seq 0 tr = ([], tr)"
| "alloc_blocks_seq (Suc n) tr =
     (case alloc_blocks tr of (b, tr') \<Rightarrow>
        (case alloc_blocks_seq n tr' of (bs, tr'') \<Rightarrow> (b # bs, tr'')))"

text \<open>A run of four free blocks starts at \<open>b\<close>.\<close>

definition free_run :: "bool list \<Rightarrow> nat \<Rightarrow> bool" where
  "free_run tr b =
     (b + 3 < length tr \<and> \<not> tr ! b \<and> \<not> tr ! (b + 1) \<and> \<not> tr ! (b + 2) \<and> \<not> tr ! (b + 3))"

text \<open>
  The second loop of \<open>evict_page_to_disk\<close> ("Find victim page using FIFO") over
  \<open>heap_tracker[MAXHEAP]\<close>, a list of \<open>MAXHEAP\<close> descriptors, from position \<open>i\<close> on.
\<close>

function find_victim :: "heap_tracker_t list \<Rightarrow> nat \<Rightarrow> nat \<Rightarrow> u64 \<Rightarrow> nat" where
  "find_victim ht i victimPageIndex minTime =
     (if i < length ht then
        (if \<not> loaded (ht ! i) \<and> last_load_time (ht ! i) < minTime
         then find_victim ht (Suc i) i (last_load_time (ht ! i))
         else find_victim ht (Suc i) victimPageIndex minTime)
      else victimPageIndex)"
  by pat_completeness auto
termination
  by (relation "measure (\<lambda>(ht, i, v, m). length ht - i)") auto

declare find_victim.simps [simp del]

text \<open>The loop as it is started: \<open>victimPageIndex = 0\<close>, \<open>minTime = __UINT64_MAX__\<close>.\<close>

definition select_victim :: "heap_tracker_t list \<Rightarrow> nat" where
  "select_victim ht = find_victim ht 0 0 (- 1)"

text \<open>
  What holds of \<open>i\<close>, \<open>blockno\<close> and \<open>freeBlocks\<close> each time the first loop tests its bound:
  the \<open>freeBlocks\<close> blocks before \<open>i\<close> are free, \<open>blockno\<close> is the first of them, and no run
  of four free blocks starts before them.
\<close>

definition scan_inv :: "bool list \<Rightarrow> nat \<Rightarrow> nat \<Rightarrow> nat \<Rightarrow> bool" where
  "scan_inv tr i blockno freeBlocks =
     (freeBlocks < 4 \<and> freeBlocks \<le> i
      \<and> list_all (\<lambda>j. \<not> tr ! j) [i - freeBlocks..<i]
      \<and> (freeBlocks = 0 \<or> blockno = i - freeBlocks)
      \<and> list_all (\<lambda>b. \<not> free_run tr b) [0..<i - freeBlocks])"

text \<open>
  The victim in the words of the specification: \<open>r\<close> is a resident descriptor whose
  timestamp is the smallest of the resident ones, and the first of those in table order.
\<close>

definition oldest_resident :: "heap_tracker_t list \<Rightarrow> nat \<Rightarrow> bool" where
  "oldest_resident ht r =
     (r < length ht \<and> \<not> loaded (ht ! r)
      \<and> list_all (\<lambda>j. loaded (ht ! j)
                      \<or> last_load_time (ht ! r) < last_load_time (ht ! j)
                      \<or> (last_load_time (ht ! r) = last_load_time (ht ! j) \<and> r \<le> j))
           [0..<length ht])"

text \<open>The resident descriptors of a table: index and timestamp, in table order.\<close>

definition resident_times :: "heap_tracker_t list \<Rightarrow> (nat \<times> u64) list" where
  "resident_times ht =
     map (\<lambda>j. (j, last_load_time (ht ! j))) (filter (\<lambda>j. \<not> loaded (ht ! j)) [0..<length ht])"

subsection \<open>Descriptor tables used as concrete inputs\<close>

text \<open>
  Six descriptors: the four resident ones of the specification's example, timestamps 10, 30,
  5 and 20, followed by two evicted ones with smaller timestamps.
\<close>

definition ht_example :: "heap_tracker_t list" where
  "ht_example =
     [\<lparr>addr = 0x4000, last_load_time = 10, startblock = 0, loaded = False\<rparr>,
      \<lparr>addr = 0x5000, last_load_time = 30, startblock = 0, loaded = False\<rparr>,
      \<lparr>addr = 0x6000, last_load_time = 5, startblock = 0, loaded = False\<rparr>,
      \<lparr>addr = 0x7000, last_load_time = 20, startblock = 0, loaded = False\<rparr>,
      \<lparr>addr = 0x8000, last_load_time = 1, startblock = 0, loaded = True\<rparr>,
      \<lparr>addr = 0x9000, last_load_time = 3, startblock = 4, loaded = True\<rparr>]"

text \<open>
  Two descriptors: an evicted one, and a resident one whose timestamp is \<open>2^64 - 1\<close>, the
  value the second loop starts \<open>minTime\<close> from.
\<close>

definition ht_stale :: "heap_tracker_t list" where
  "ht_stale =
     [\<lparr>addr = 0x4000, last_load_time = 5, startblock = 0, loaded = True\<rparr>,
      \<lparr>addr = 0x5000, last_load_time = - 1, startblock = 0, loaded = False\<rparr>]"

section \<open>kernel/pfault.c: eviction, page-in and the fault handler\<close>

type_synonym byte = "8 word"

text \<open>
  Modelled from the spec: vm.c, bio.c, kalloc.c, exec.c, string.c and proc.h are not among
  the sources. pfault.c sees them through the interfaces the spec lists: the page table
  (\<open>allocateMappedRange\<close>, \<open>removeMapping\<close>, copying in and out of a mapped page), block storage
  (\<open>readBlock\<close>, \<open>writeBlock\<close>, blocks of 1024 bytes), the frame allocator and the executable
  image. For this file a process's page table is taken together with the frames it maps: a
  page address is mapped to the permission bits it was mapped with and its 4096 bytes, or is
  not mapped. Which frame holds the bytes is not part of this view.
\<close>

record user_page =
  perm :: cint
  bytes :: "byte list"

type_synonym user_pages = "u64 \<Rightarrow> user_page option"

definition PTE_W :: cint where
  "PTE_W = 4"

definition PTE_X :: cint where
  "PTE_X = 8"

text \<open>
  Modelled from the spec: \<open>memmove\<close> of string.c, as \<open>memmove(dst + off, src, n)\<close> on
  buffers as lists.
\<close>

definition memmove :: "byte list \<Rightarrow> nat \<Rightarrow> byte list \<Rightarrow> nat \<Rightarrow> byte list" where
  "memmove dst off src n = take off dst @ take n src @ drop (off + n) dst"

text \<open>
  Modelled from the spec: \<open>copyin(pagetable, dst, srcva, PGSIZE)\<close> and
  \<open>copyout(pagetable, dstva, src, PGSIZE)\<close> for a page address. Where the page is not mapped
  they fail and copy nothing; pfault.c does not look at what they return.
\<close>

definition copyin :: "user_pages \<Rightarrow> byte list \<Rightarrow> u64 \<Rightarrow> byte list" where
  "copyin pagetable dst srcva =
     (case pagetable srcva of None \<Rightarrow> dst | Some pg \<Rightarrow> memmove dst 0 (bytes pg) PGSIZE)"

definition copyout :: "user_pages \<Rightarrow> u64 \<Rightarrow> byte list \<Rightarrow> user_pages" where
  "copyout pagetable dstva src =
     (case pagetable dstva of
        None \<Rightarrow> pagetable
      | Some pg \<Rightarrow> pagetable(dstva \<mapsto> pg\<lparr>bytes := memmove (bytes pg) 0 src PGSIZE\<rparr>))"

text \<open>
  Modelled from the spec: \<open>uvmunmap(pagetable, va, 1, 0)\<close>, the spec's \<open>removeMapping\<close> of one
  page without freeing, and \<open>uvmalloc(pagetable, a, a + PGSIZE, xperm)\<close> for a page address
  \<open>a\<close>, the spec's \<open>allocateMappedRange\<close>: one fresh page, filled with zeros ("implicitly
  zero-filled by the allocation step"), mapped with the permission asked for.
\<close>

definition uvmunmap_page :: "user_pages \<Rightarrow> u64 \<Rightarrow> user_pages" where
  "uvmunmap_page pagetable va = pagetable(va := None)"

definition uvmalloc :: "user_pages \<Rightarrow> u64 \<Rightarrow> cint \<Rightarrow> user_pages" where
  "uvmalloc pagetable a xperm = pagetable(a \<mapsto> \<lparr>perm = xperm, bytes = replicate PGSIZE 0\<rparr>)"

text \<open>
  The globals of pfault.c (the bitmap \<open>psa_tracker\<close>), the disk as \<open>bread\<close> and \<open>bwrite\<close> see
  it (block number to content), and \<open>ticks\<close>.
\<close>

record kernel =
  psa_tracker :: "bool list"
  disk :: "nat \<Rightarrow> byte list"
  ticks :: u64

text \<open>The fields of \<open>struct proc\<close> that pfault.c uses.\<close>

record proc =
  name :: string
  cow_enabled :: bool
  heap_tracker :: "heap_tracker_t list"
  resident_heap_pages :: cint
  pagetable :: user_pages

text \<open>\<open>struct proghdr\<close> of elf.h, with the fields pfault.c uses.\<close>

record proghdr =
  vaddr :: u64
  memsz :: u64
  filesz :: u64
  off :: u64
  flags :: cint

text \<open>
  An executable as \<open>readi\<close> shows it to the handler: the \<open>elf.phnum\<close> program headers found
  from \<open>elf.phoff\<close> on, and the bytes of the file.
\<close>

record inode =
  phdrs :: "proghdr list"
  contents :: "byte list"

text \<open>
  What the kernel is built and run with: the constants \<open>MAXRESHEAP\<close> and \<open>PSASTART\<close> of
  param.h, the content of a page as \<open>kalloc\<close> hands it out, and the file system behind
  \<open>namei\<close>.
\<close>

record kenv =
  MAXRESHEAP :: cint
  PSASTART :: nat
  kpage :: "byte list"
  namei :: "string \<Rightarrow> inode option"

text \<open>
  The loop of \<open>evict_page_to_disk\<close> that writes the page in \<open>ptr\<close> to the four blocks from
  \<open>start\<close> on: \<open>bread\<close>, \<open>memmove(b->data, ptr + i*1024, 1024)\<close>, \<open>bwrite\<close>.
\<close>

definition write_blocks :: "(nat \<Rightarrow> byte list) \<Rightarrow> nat \<Rightarrow> byte list \<Rightarrow> (nat \<Rightarrow> byte list)" where
  "write_blocks d start ptr =
     fold (\<lambda>i d. d(start + i := memmove (d (start + i)) 0 (drop (i * 1024) ptr) 1024)) [0..<4] d"

text \<open>
  \<open>evict_page_to_disk\<close>. Neither loop has a way to fail: the code after them uses \<open>blockno\<close>
  and \<open>victimPageIndex\<close> as they are. The descriptor table has \<open>MAXHEAP > 0\<close> slots, so
  slot 0, which the second loop starts from, exists. \<open>kalloc\<close> is taken to succeed; the
  page it returns is never freed.
\<close>

definition evict_page_to_disk :: "kenv \<Rightarrow> kernel \<times> proc \<Rightarrow> kernel \<times> proc" where
  "evict_page_to_disk env s =
     (case s of (k, p) \<Rightarrow>
        (case alloc_blocks (psa_tracker k) of (blockno, tracker') \<Rightarrow>
           (let victimPageIndex = select_victim (heap_tracker p);
                vaAddr = addr (heap_tracker p ! victimPageIndex);
                ptr = copyin (pagetable p) (kpage env) vaAddr;
                disk' = write_blocks (disk k) (PSASTART env + blockno) ptr;
                pagetable' = uvmunmap_page (pagetable p) vaAddr;
                heap_tracker' = (heap_tracker p)
                  [victimPageIndex :=
                     (heap_tracker p ! victimPageIndex)\<lparr>startblock := blockno, loaded := True\<rparr>]
            in (k\<lparr>psa_tracker := tracker', disk := disk'\<rparr>,
                p\<lparr>heap_tracker := heap_tracker', pagetable := pagetable'\<rparr>))))"

text \<open>
  The loop of \<open>retrieve_page_from_disk\<close>: the first descriptor that is on disk and has the
  address \<open>uvaddr\<close>, from slot \<open>i\<close> on.
\<close>

fun find_swapped :: "heap_tracker_t list \<Rightarrow> u64 \<Rightarrow> nat \<Rightarrow> nat option" where
  "find_swapped [] uvaddr i = None"
| "find_swapped (h # hs) uvaddr i =
     (if loaded h \<and> addr h = uvaddr then Some i else find_swapped hs uvaddr (Suc i))"

text \<open>The loop that reads four blocks into \<open>ptr\<close>: \<open>memmove(ptr + 1024*i, b->data, 1024)\<close>.\<close>

definition read_blocks :: "(nat \<Rightarrow> byte list) \<Rightarrow> nat \<Rightarrow> byte list \<Rightarrow> byte list" where
  "read_blocks d start ptr = fold (\<lambda>i ptr. memmove ptr (1024 * i) (d (start + i)) 1024) [0..<4] ptr"

text \<open>
  \<open>retrieve_page_from_disk\<close>. The four stores into \<open>psa_tracker\<close> are made at
  \<open>startBlockNo\<close>, ..., \<open>startBlockNo + 3\<close> unchecked; the first of them that lies behind
  the bitmap is reported. When no descriptor matches, \<open>startBlockNo\<close> stays 0 and the blocks
  from \<open>PSASTART\<close> on are read.
\<close>

definition retrieve_page_from_disk :: "kenv \<Rightarrow> kernel \<times> proc \<Rightarrow> u64 \<Rightarrow> fault + kernel \<times> proc" where
  "retrieve_page_from_disk env s uvaddr =
     (case s of (k, p) \<Rightarrow>
        (case (case find_swapped (heap_tracker p) uvaddr 0 of
                 None \<Rightarrow> Inr (0, psa_tracker k)
               | Some i \<Rightarrow>
                   (let startBlockNo = startblock (heap_tracker p ! i)
                    in if startBlockNo + 3 < length (psa_tracker k)
                       then Inr (startBlockNo,
                                 (psa_tracker k)[startBlockNo := False, startBlockNo + 1 := False,
                                    startBlockNo + 2 := False, startBlockNo + 3 := False])
                       else Inl (OutOfBounds (max startBlockNo (length (psa_tracker k)))))) of
           Inl f \<Rightarrow> Inl f
         | Inr (startBlockNo, tracker') \<Rightarrow>
             (let ptr = read_blocks (disk k) (PSASTART env + startBlockNo) (kpage env)
              in Inr (k\<lparr>psa_tracker := tracker'\<rparr>,
                      p\<lparr>pagetable := copyout (pagetable p) uvaddr ptr\<rparr>))))"

text \<open>
  Modelled from the spec: \<open>strncmp\<close> of string.c is not among the sources; this is C's
  \<open>strncmp\<close> on strings whose end is the terminating NUL. \<open>chr0\<close> is the byte a \<open>char*\<close>
  points at.
\<close>

definition chr0 :: "string \<Rightarrow> nat" where
  "chr0 s = (case s of [] \<Rightarrow> 0 | c # _ \<Rightarrow> of_char c)"

fun strncmp :: "string \<Rightarrow> string \<Rightarrow> nat \<Rightarrow> int" where
  "strncmp p q 0 = 0"
| "strncmp p q (Suc n) =
     (if chr0 p \<noteq> 0 \<and> chr0 p = chr0 q then strncmp (tl p) (tl q) n
      else int (chr0 p) - int (chr0 q))"

text \<open>
  The two loops of \<open>page_fault_handler\<close> that look for the descriptor whose address is the
  faulting page: the first one that matches, from slot \<open>i\<close> on.
\<close>

fun find_addr :: "heap_tracker_t list \<Rightarrow> u64 \<Rightarrow> nat \<Rightarrow> nat option" where
  "find_addr [] a i = None"
| "find_addr (h # hs) a i = (if addr h = a then Some i else find_addr hs a (Suc i))"

text \<open>
  \<open>copy_on_write\<close> of cow.c in this file's view of the page table: the page gets a frame of
  its own with the same bytes and is mapped again with \<open>PTE_W\<close> added. The entry that
  \<open>walk\<close> returns is used unchecked.
\<close>

definition copy_on_write :: "proc \<Rightarrow> u64 \<Rightarrow> fault + proc" where
  "copy_on_write p va =
     (case pagetable p va of
        None \<Rightarrow> Inl NullDeref
      | Some pg \<Rightarrow> Inr (p\<lparr>pagetable := (pagetable p)(va \<mapsto> pg\<lparr>perm := perm pg OR PTE_W\<rparr>)\<rparr>))"

text \<open>
  Modelled from the spec: \<open>flags2perm\<close> and \<open>loadseg\<close> are declared in pfault.c and defined
  in exec.c, which is not among the sources. \<open>flags2perm\<close> turns a segment's flags into page
  permissions. \<open>loadseg(pagetable, va, ip, offset, sz)\<close> is the spec's \<open>readSegmentBytes\<close> page
  by page: for each page of \<open>[va, va + sz)\<close>, which must be mapped, it reads up to a page of
  the file from \<open>offset\<close> on into the page, and stops when the file ends.
\<close>

definition flags2perm :: "cint \<Rightarrow> cint" where
  "flags2perm f =
     (let perm = (if f AND 1 \<noteq> 0 then PTE_X else 0)
      in if f AND 2 \<noteq> 0 then perm OR PTE_W else perm)"

function loadseg_from ::
  "user_pages \<Rightarrow> u64 \<Rightarrow> byte list \<Rightarrow> nat \<Rightarrow> nat \<Rightarrow> nat \<Rightarrow> fault + user_pages"
where
  "loadseg_from pt va file offset sz i =
     (if i < sz then
        (case pt ((va + of_nat i) AND NOT 4095) of
           None \<Rightarrow> Inl (Panic ''loadseg: address should exist'')
         | Some pg \<Rightarrow>
             (let n = (if sz - i < PGSIZE then sz - i else PGSIZE);
                  got = take n (drop (offset + i) file);
                  pt' = pt((va + of_nat i) AND NOT 4095
                           \<mapsto> pg\<lparr>bytes := memmove (bytes pg) 0 got (length got)\<rparr>)
              in if length got \<noteq> n then Inr pt'
                 else loadseg_from pt' va file offset sz (i + PGSIZE)))
      else Inr pt)"
  by pat_completeness auto
termination
  by (relation "measure (\<lambda>(pt, va, file, offset, sz, i). sz - i)") (auto simp: PGSIZE_def)

declare loadseg_from.simps [simp del]

definition loadseg :: "user_pages \<Rightarrow> u64 \<Rightarrow> byte list \<Rightarrow> nat \<Rightarrow> nat \<Rightarrow> fault + user_pages" where
  "loadseg pt va file offset sz = loadseg_from pt va file offset sz 0"

text \<open>
  The loop of \<open>page_fault_handler\<close> over the program headers. It does not stop at the first
  segment that holds the faulting page, and it hands \<open>loadseg\<close> the segment's own
  \<open>vaddr\<close>, \<open>off\<close> and \<open>filesz\<close> (cut to \<open>uint\<close>), not the page's. What \<open>loadseg\<close> returns
  is not looked at.
\<close>

fun load_segments :: "user_pages \<Rightarrow> u64 \<Rightarrow> inode \<Rightarrow> proghdr list \<Rightarrow> fault + user_pages" where
  "load_segments pt faulting_addr ip [] = Inr pt"
| "load_segments pt faulting_addr ip (ph # phs) =
     (if faulting_addr \<ge> vaddr ph \<and> faulting_addr < vaddr ph + memsz ph then
        (case loadseg (uvmalloc pt faulting_addr (flags2perm (flags ph))) (vaddr ph) (contents ip)
                (unat (ucast (off ph) :: 32 word)) (unat (ucast (filesz ph) :: 32 word)) of
           Inl f \<Rightarrow> Inl f
         | Inr pt' \<Rightarrow> load_segments pt' faulting_addr ip phs)
      else load_segments pt faulting_addr ip phs)"

text \<open>
  The label \<open>heap_handle\<close>, first part: the test \<open>!strncmp(p->name, "test5-odheap-bi", 16) == 0
  && p->resident_heap_pages == MAXRESHEAP\<close>. \<open>!strncmp(...)\<close> is 1 when the names are equal,
  so the eviction is made when they differ.
\<close>

definition heap_evict_if_full :: "kenv \<Rightarrow> kernel \<times> proc \<Rightarrow> kernel \<times> proc" where
  "heap_evict_if_full env s =
     (case s of (k, p) \<Rightarrow>
        if strncmp (name p) ''test5-odheap-bi'' 16 \<noteq> 0 \<and> resident_heap_pages p = MAXRESHEAP env
        then (case evict_page_to_disk env (k, p) of
                (k', p') \<Rightarrow> (k', p'\<lparr>resident_heap_pages := resident_heap_pages p' - 1\<rparr>))
        else (k, p))"

text \<open>
  The label \<open>heap_handle\<close>, second part: map the page, set the descriptor's timestamp from
  \<open>read_current_timestamp\<close>, page in when asked to, count the page.
\<close>

definition heap_map_page :: "kenv \<Rightarrow> u64 \<Rightarrow> bool \<Rightarrow> kernel \<times> proc \<Rightarrow> fault + kernel \<times> proc" where
  "heap_map_page env faulting_addr load_from_disk s =
     (case s of (k, p) \<Rightarrow>
        (let p1 = p\<lparr>pagetable := uvmalloc (pagetable p) faulting_addr PTE_W\<rparr>;
             p2 = p1\<lparr>heap_tracker :=
                    (case find_addr (heap_tracker p1) faulting_addr 0 of
                       None \<Rightarrow> heap_tracker p1
                     | Some i \<Rightarrow> (heap_tracker p1)
                         [i := (heap_tracker p1 ! i)\<lparr>last_load_time := ticks k\<rparr>])\<rparr>
         in case (if load_from_disk then retrieve_page_from_disk env (k, p2) faulting_addr
                  else Inr (k, p2)) of
              Inl f \<Rightarrow> Inl f
            | Inr (k', p') \<Rightarrow> Inr (k', p'\<lparr>resident_heap_pages := resident_heap_pages p' + 1\<rparr>)))"

text \<open>
  \<open>page_fault_handler\<close> for the process \<open>p\<close>, with \<open>scause\<close> and \<open>stval\<close> as the two
  registers hold them. \<open>sfence_vma\<close> and the print statements change nothing here.
\<close>

definition page_fault_handler :: "kenv \<Rightarrow> u64 \<Rightarrow> u64 \<Rightarrow> kernel \<times> proc \<Rightarrow> fault + kernel \<times> proc" where
  "page_fault_handler env scause stval s =
     (case s of (k, p) \<Rightarrow>
        (let faulting_addr = push_bit 12 (drop_bit 12 stval)
         in if scause = 15 \<and> cow_enabled p then
              (case copy_on_write p faulting_addr of Inl f \<Rightarrow> Inl f | Inr p' \<Rightarrow> Inr (k, p'))
            else
              (case find_addr (heap_tracker p) faulting_addr 0 of
                 Some i \<Rightarrow>
                   heap_map_page env faulting_addr (loaded (heap_tracker p ! i))
                     (heap_evict_if_full env (k, p))
               | None \<Rightarrow>
                   (case namei env (name p) of
                      None \<Rightarrow> Inr (k, p)
                    | Some ip \<Rightarrow>
                        (case load_segments (pagetable p) faulting_addr ip (phdrs ip) of
                           Inl f \<Rightarrow> Inl f
                         | Inr pt' \<Rightarrow> Inr (k, p\<lparr>pagetable := pt'\<rparr>))))))"

subsection \<open>A process with a full heap and an executable of two pages, as concrete input\<close>

text \<open>
  Sixteen swap blocks, the first two extents taken by the two evicted pages of
  \<open>ht_example\<close>; a ceiling of four resident heap pages, which the process has reached.
\<close>

definition prog_image :: inode where
  "prog_image =
     \<lparr>phdrs = [\<lparr>vaddr = 0, memsz = 0x2000, filesz = 0x2000, off = 0x1000, flags = 6\<rparr>],
      contents = replicate 4096 0x7F @ replicate 4096 0xAA @ replicate 4096 0xBB\<rparr>"

definition env0 :: kenv where
  "env0 = \<lparr>MAXRESHEAP = 4, PSASTART = 33, kpage = replicate 4096 5,
            namei = (\<lambda>nm. if nm = ''prog'' then Some prog_image else None)\<rparr>"

definition k0 :: kernel where
  "k0 = \<lparr>psa_tracker = replicate 8 True @ replicate 8 False,
          disk = (\<lambda>b. replicate 1024 0), ticks = 40\<rparr>"

definition pages0 :: user_pages where
  "pages0 =
     (\<lambda>a. if a = 0 then Some \<lparr>perm = PTE_W, bytes = replicate 4096 0x11\<rparr>
          else if a = 0x4000 then Some \<lparr>perm = PTE_W, bytes = replicate 4096 0x44\<rparr>
          else if a = 0x5000 then Some \<lparr>perm = PTE_W, bytes = replicate 4096 0x55\<rparr>
          else if a = 0x6000 then Some \<lparr>perm = PTE_W, bytes = replicate 4096 0x66\<rparr>
          else if a = 0x7000 then Some \<lparr>perm = PTE_W, bytes = replicate 4096 0x77\<rparr>
          else None)"

definition p0 :: proc where
  "p0 = \<lparr>name = ''prog'', cow_enabled = False, heap_tracker = ht_example,
          resident_heap_pages = 4, pagetable = pages0\<rparr>"

section \<open>Properties of the CoW group registry\<close>

subsection \<open>Lookup\<close>

lemma get_cow_group_from_bound:
  "get_cow_group_from tab g k = Some i \<Longrightarrow> \<exists>j<length tab. i = k + j \<and> group (tab ! j) = g"
proof (induction tab arbitrary: k)
  case Nil
  then show ?case by simp
next
  case (Cons c cs)
  show ?case
  proof (cases "group c = g")
    case True
    with Cons.prems show ?thesis by auto
  next
    case False
    with Cons.prems have "get_cow_group_from cs g (Suc k) = Some i" by simp
    from Cons.IH [OF this] obtain j where "j < length cs" "i = Suc k + j" "group (cs ! j) = g"
      by blast
    then have "Suc j < length (c # cs) \<and> i = k + Suc j \<and> group ((c # cs) ! Suc j) = g"
      by simp
    then show ?thesis by blast
  qed
qed

lemma get_cow_group_Some:
  "get_cow_group tab g = Some i \<Longrightarrow> g \<noteq> - 1 \<and> i < length tab \<and> group (tab ! i) = g"
  using get_cow_group_from_bound [of tab g 0 i]
  by (auto simp: get_cow_group_def split: if_splits)

lemma get_cow_group_from_groups:
  "map group tab' = map group tab \<Longrightarrow> get_cow_group_from tab' g k = get_cow_group_from tab g k"
proof (induction tab arbitrary: tab' k)
  case Nil
  then show ?case by simp
next
  case (Cons c cs)
  then obtain c' cs' where t: "tab' = c' # cs'" by (cases tab') auto
  with Cons.prems have hd: "group c' = group c" and tl: "map group cs' = map group cs" by auto
  have "get_cow_group_from cs' g (Suc k) = get_cow_group_from cs g (Suc k)"
    by (rule Cons.IH [OF tl])
  with hd t show ?case by simp
qed

lemma get_cow_group_update:
  assumes "group c = group (tab ! i)"
  shows "get_cow_group (tab[i := c]) g = get_cow_group tab g"
proof -
  have "map group (tab[i := c]) = (map group tab)[i := group (tab ! i)]"
    by (simp only: map_update assms)
  also have "\<dots> = map group tab"
  proof (cases "i < length tab")
    case True
    then have "(map group tab) ! i = group (tab ! i)" by simp
    then show ?thesis by (metis list_update_id)
  next
    case False
    then have "length (map group tab) \<le> i" by simp
    then show ?thesis by (rule list_update_beyond)
  qed
  finally have "get_cow_group_from (tab[i := c]) g 0 = get_cow_group_from tab g 0"
    by (rule get_cow_group_from_groups)
  then show ?thesis by (simp add: get_cow_group_def)
qed

subsection \<open>The two scans of the shared set\<close>

lemma add_shmem_scan_full:
  "\<forall>j<SHMEM_MAX. sh ! j \<noteq> 0 \<and> sh ! j \<noteq> pa \<Longrightarrow> index \<le> SHMEM_MAX \<Longrightarrow>
     add_shmem_scan sh pa index = Some SHMEM_MAX"
proof (induction sh pa index rule: add_shmem_scan.induct)
  case (1 sh pa index)
  show ?case
  proof (cases "index < SHMEM_MAX")
    case True
    with 1 show ?thesis by (subst add_shmem_scan.simps) simp
  next
    case False
    with 1 show ?thesis by (subst add_shmem_scan.simps) simp
  qed
qed


lemma add_shmem_scan_ge: "add_shmem_scan sh pa k = Some j \<Longrightarrow> k \<le> j"
proof (induction sh pa k rule: add_shmem_scan.induct)
  case (1 sh pa index)
  from "1.prems" show ?case
    by (subst (asm) add_shmem_scan.simps) (auto split: if_splits dest!: "1.IH" [rotated 3])
qed

lemma add_shmem_scan_in_range:
  "add_shmem_scan sh pa k = Some j \<Longrightarrow>
   \<exists>m. k \<le> m \<and> m < SHMEM_MAX \<and> (sh ! m = pa \<or> sh ! m = 0) \<Longrightarrow> j < SHMEM_MAX"
proof (induction sh pa k rule: add_shmem_scan.induct)
  case (1 sh pa index)
  from "1.prems"(2) obtain m where m: "index \<le> m" "m < SHMEM_MAX" "sh ! m = pa \<or> sh ! m = 0"
    by blast
  then have lt: "index < SHMEM_MAX" by simp
  show ?case
  proof (cases "sh ! index = pa \<or> sh ! index = 0")
    case True
    with "1.prems"(1) lt show ?thesis
      by (subst (asm) add_shmem_scan.simps) (auto split: if_splits)
  next
    case False
    with m have "Suc index \<le> m" by (cases "m = index") auto
    with m have ex: "\<exists>m. Suc index \<le> m \<and> m < SHMEM_MAX \<and> (sh ! m = pa \<or> sh ! m = 0)" by blast
    from "1.prems"(1) lt False have "add_shmem_scan sh pa (Suc index) = Some j"
      by (subst (asm) add_shmem_scan.simps) simp
    with "1.IH" lt False ex show ?thesis by simp
  qed
qed

lemma is_shmem_scan_present:
  "add_shmem_scan sh pa k = None \<Longrightarrow> pa \<noteq> 0 \<Longrightarrow> is_shmem_scan sh pa k"
proof (induction sh pa k rule: add_shmem_scan.induct)
  case (1 sh pa index)
  have lt: "index < SHMEM_MAX"
    using "1.prems"(1) by (subst (asm) add_shmem_scan.simps) (simp split: if_splits)
  have nz: "sh ! index \<noteq> 0 \<or> sh ! index = pa"
    using "1.prems"(1) lt by (subst (asm) add_shmem_scan.simps) (simp split: if_splits)
  show ?case
  proof (cases "sh ! index = pa")
    case True
    with lt "1.prems"(2) show ?thesis by (subst is_shmem_scan.simps) simp
  next
    case False
    with nz have nz': "sh ! index \<noteq> 0" by simp
    from "1.prems"(1) lt False nz' have "add_shmem_scan sh pa (Suc index) = None"
      by (subst (asm) add_shmem_scan.simps) simp
    with "1.IH" lt False nz' "1.prems"(2) have "is_shmem_scan sh pa (Suc index)" by simp
    with lt False nz' show ?thesis by (subst is_shmem_scan.simps) simp
  qed
qed

lemma add_shmem_scan_stored:
  "add_shmem_scan sh pa k = Some j \<Longrightarrow> j < length sh \<Longrightarrow> j < SHMEM_MAX \<Longrightarrow>
   add_shmem_scan (sh[j := pa]) pa k = None"
proof (induction sh pa k rule: add_shmem_scan.induct)
  case (1 sh pa index)
  have lt: "index < SHMEM_MAX"
    using add_shmem_scan_ge [OF "1.prems"(1)] "1.prems"(3) by simp
  have ne: "sh ! index \<noteq> pa"
    using "1.prems"(1) lt by (subst (asm) add_shmem_scan.simps) (simp split: if_splits)
  show ?case
  proof (cases "sh ! index = 0")
    case True
    with "1.prems"(1) lt ne have "j = index"
      by (subst (asm) add_shmem_scan.simps) simp
    with lt "1.prems"(2) show ?thesis by (subst add_shmem_scan.simps) simp
  next
    case False
    with "1.prems"(1) lt ne have rec: "add_shmem_scan sh pa (Suc index) = Some j"
      by (subst (asm) add_shmem_scan.simps) simp
    from add_shmem_scan_ge [OF rec] have "j \<noteq> index" by simp
    then have same: "sh[j := pa] ! index = sh ! index" by simp
    from "1.IH" lt ne False rec "1.prems"(2,3)
    have "add_shmem_scan (sh[j := pa]) pa (Suc index) = None" by simp
    with lt ne False same show ?thesis by (subst add_shmem_scan.simps) simp
  qed
qed


subsection \<open>A full shared set\<close>

text \<open>
  Claim C6. The claim says that registering a frame that is not in a full shared set is
  dropped without a store outside the hundred slots. The code does not drop it: when every
  slot of the group holds a frame other than \<open>pa\<close>, the loop of \<open>add_shmem\<close> ends by its
  bound with \<open>index = SHMEM_MAX\<close> and the store \<open>shmem[index] = pa\<close> that follows is made at
  index 100, one slot behind the array.
\<close>

theorem add_shmem_full_set_out_of_bounds:
  assumes "get_cow_group tab g = Some i"
      and "\<forall>j<SHMEM_MAX. shmem (tab ! i) ! j \<noteq> 0 \<and> shmem (tab ! i) ! j \<noteq> pa"
  shows "add_shmem tab g pa = Inl (OutOfBounds SHMEM_MAX)"
proof -
  from assms(1) have g: "g \<noteq> - 1" by (simp add: get_cow_group_Some)
  have "add_shmem_scan (shmem (tab ! i)) pa 0 = Some SHMEM_MAX"
    by (rule add_shmem_scan_full [OF assms(2)]) simp
  with g assms(1) show ?thesis by (simp add: add_shmem_def)
qed

lemma frame_unat:
  "j < 100 \<Longrightarrow> unat (0x80000000 + 0x1000 * of_nat j :: u64) = 0x80000000 + 0x1000 * j"
proof -
  assume j: "j < 100"
  define n where "n = 0x80000000 + 0x1000 * j"
  have "n < 2 ^ 64" using j by (simp add: n_def)
  then have "unat (of_nat n :: u64) = n" by (simp add: unat_of_nat)
  moreover have "(of_nat n :: u64) = 0x80000000 + 0x1000 * of_nat j" by (simp add: n_def)
  ultimately show ?thesis by (simp add: n_def)
qed

lemma frame_distinct:
  "j < 100 \<Longrightarrow> (0x80000000 + 0x1000 * of_nat j :: u64) \<noteq> 0
     \<and> (0x80000000 + 0x1000 * of_nat j :: u64) \<noteq> 0x90000000"
  using frame_unat [of j] by (auto simp: word_unat_eq_iff)

theorem add_shmem_full_set_out_of_bounds_witness:
  "get_cow_group full_table 7 = Some 0
   \<and> 0 \<notin> set (shmem (full_table ! 0)) \<and> 0x90000000 \<notin> set (shmem (full_table ! 0))
   \<and> add_shmem full_table 7 0x90000000 = Inl (OutOfBounds 100)"
proof -
  have h1: "get_cow_group full_table 7 = Some 0"
    by (simp add: get_cow_group_def full_table_def)
  have h2: "\<forall>j<SHMEM_MAX. shmem (full_table ! 0) ! j \<noteq> 0 \<and> shmem (full_table ! 0) ! j \<noteq> 0x90000000"
    using frame_distinct by (simp add: SHMEM_MAX_def full_table_def)
  have h3: "0 \<notin> set (shmem (full_table ! 0)) \<and> 0x90000000 \<notin> set (shmem (full_table ! 0))"
    using frame_distinct by (auto simp: full_table_def)
  from add_shmem_full_set_out_of_bounds [OF h1 h2] h1 h3 show ?thesis
    by (simp add: SHMEM_MAX_def)
qed

subsection \<open>Registering and querying a frame\<close>

text \<open>
  Claim C7, as amended. For a group that is in the registry (so its id is not the sentinel)
  and a frame address other than 0, if the frame is already in the shared set or the set has
  an empty slot, then \<open>add_shmem\<close> returns, \<open>is_shmem\<close> answers true right after it, and
  a second \<open>add_shmem\<close> of the same frame returns the table as it is.
\<close>

theorem add_shmem_then_is_shmem:
  assumes "get_cow_group tab g = Some i"
      and "length (shmem (tab ! i)) = SHMEM_MAX"
      and "pa \<noteq> 0"
      and "pa \<in> set (shmem (tab ! i)) \<or> 0 \<in> set (shmem (tab ! i))"
  shows "\<exists>tab'. add_shmem tab g pa = Inr tab' \<and> is_shmem tab' g pa = Inr True
           \<and> add_shmem tab' g pa = Inr tab'"
proof -
  let ?sh = "shmem (tab ! i)"
  from assms(1) have g: "g \<noteq> - 1" and i: "i < length tab"
    by (simp_all add: get_cow_group_Some)
  from assms(4) obtain m where m: "m < length ?sh" "?sh ! m = pa \<or> ?sh ! m = 0"
    by (auto simp: in_set_conv_nth)
  with assms(2) have ex: "\<exists>m. 0 \<le> m \<and> m < SHMEM_MAX \<and> (?sh ! m = pa \<or> ?sh ! m = 0)"
    by auto
  show ?thesis
  proof (cases "add_shmem_scan ?sh pa 0")
    case None
    with g assms(1) have add: "add_shmem tab g pa = Inr tab" by (simp add: add_shmem_def)
    from is_shmem_scan_present [OF None assms(3)] g assms(1)
    have "is_shmem tab g pa = Inr True" by (simp add: is_shmem_def)
    with add show ?thesis by simp
  next
    case (Some j)
    from add_shmem_scan_in_range [OF Some ex] have j: "j < SHMEM_MAX" .
    with assms(2) have jl: "j < length ?sh" by simp
    let ?tab' = "tab[i := (tab ! i)\<lparr>shmem := ?sh[j := pa]\<rparr>]"
    from Some j g assms(1) have add: "add_shmem tab g pa = Inr ?tab'"
      by (simp add: add_shmem_def)
    have grp: "get_cow_group ?tab' g = Some i"
      using assms(1) by (simp add: get_cow_group_update)
    from i have sh': "shmem (?tab' ! i) = ?sh[j := pa]" by simp
    from add_shmem_scan_stored [OF Some jl j] have again: "add_shmem_scan (?sh[j := pa]) pa 0 = None" .
    from is_shmem_scan_present [OF again assms(3)] g grp sh'
    have q: "is_shmem ?tab' g pa = Inr True" by (simp add: is_shmem_def)
    from again g grp sh' have "add_shmem ?tab' g pa = Inr ?tab'"
      by (simp add: add_shmem_def)
    with add q show ?thesis by simp
  qed
qed

lemma one_group_eq:
  "one_group = [\<lparr>group = 7, shmem = replicate SHMEM_MAX 0, count = 0\<rparr>,
                \<lparr>group = - 1, shmem = replicate SHMEM_MAX 0, count = 0\<rparr>]"
  by (simp add: one_group_def cow_init_def numeral_2_eq_2)

theorem add_shmem_then_is_shmem_witness:
  "get_cow_group one_group 7 = Some 0 \<and> length (shmem (one_group ! 0)) = SHMEM_MAX
   \<and> (0x80001000 :: u64) \<noteq> 0
   \<and> (0x80001000 \<in> set (shmem (one_group ! 0)) \<or> 0 \<in> set (shmem (one_group ! 0)))
   \<and> (\<exists>tab'. add_shmem one_group 7 0x80001000 = Inr tab' \<and> is_shmem tab' 7 0x80001000 = Inr True
           \<and> add_shmem tab' 7 0x80001000 = Inr tab')"
proof -
  have h1: "get_cow_group one_group 7 = Some 0"
    by (simp add: one_group_eq get_cow_group_def)
  have h2: "length (shmem (one_group ! 0)) = SHMEM_MAX"
    by (simp add: one_group_eq)
  have h3: "(0x80001000 :: u64) \<noteq> 0" by simp
  have h4: "0x80001000 \<in> set (shmem (one_group ! 0)) \<or> 0 \<in> set (shmem (one_group ! 0))"
    by (simp add: one_group_eq SHMEM_MAX_def)
  from add_shmem_then_is_shmem [OF h1 h2 h3 h4] h1 h2 h3 h4 show ?thesis by blast
qed

text \<open>
  Claim C7 as stated, for every group and every frame, fails by design at the sentinel id and
  at the frame address 0, which is the mark of an empty slot: in both cases \<open>add_shmem\<close>
  returns without a store and \<open>is_shmem\<close> answers false.
\<close>

theorem add_shmem_then_is_shmem_counterexample:
  "add_shmem one_group (- 1) 0x80001000 = Inr one_group
   \<and> is_shmem one_group (- 1) 0x80001000 = Inr False
   \<and> add_shmem one_group 7 0 = Inr one_group
   \<and> is_shmem one_group 7 0 = Inr False"
proof -
  have grp: "get_cow_group one_group 7 = Some 0"
    by (simp add: one_group_eq get_cow_group_def)
  have a: "add_shmem_scan (shmem (one_group ! 0)) 0 0 = None"
    by (subst add_shmem_scan.simps) (simp add: one_group_eq SHMEM_MAX_def)
  have b: "is_shmem_scan (shmem (one_group ! 0)) 0 0 = False"
    by (subst is_shmem_scan.simps) (simp add: one_group_eq SHMEM_MAX_def)
  from grp a b show ?thesis by (simp add: add_shmem_def is_shmem_def)
qed

subsection \<open>The sentinel id\<close>

text \<open>
  Claim C8. With the id \<open>-1\<close>, \<open>get_cow_group\<close> finds nothing, \<open>add_shmem\<close> leaves the
  registry as it is and \<open>is_shmem\<close> answers false, as the claim says. The three counter
  operations are not safe, against the claim: \<open>get_cow_group_count\<close>,
  \<open>incr_cow_group_count\<close> and \<open>decr_cow_group_count\<close> use the null pointer that
  \<open>get_cow_group\<close> returns for \<open>-1\<close> without the check that their two siblings make.
\<close>

theorem cow_sentinel_operations:
  "get_cow_group tab (- 1) = None
   \<and> add_shmem tab (- 1) pa = Inr tab
   \<and> is_shmem tab (- 1) pa = Inr False
   \<and> get_cow_group_count tab (- 1) = Inl NullDeref
   \<and> incr_cow_group_count tab (- 1) = Inl NullDeref
   \<and> decr_cow_group_count tab (- 1) = Inl NullDeref"
  by (simp add: get_cow_group_def add_shmem_def is_shmem_def get_cow_group_count_def
      incr_cow_group_count_def decr_cow_group_count_def)
section \<open>Properties of the address-space teardown\<close>

subsection \<open>The loop on words and its page count\<close>

lemma unat_add_pages:
  assumes "unat (a :: u64) + m < 2 ^ 64"
  shows "unat (a + of_nat m) = unat a + m"
proof -
  from assms have m: "m < 2 ^ 64" by simp
  then have um: "unat (of_nat m :: u64) = m" by (simp add: unat_of_nat)
  with assms have "unat a + unat (of_nat m :: u64) < 2 ^ LENGTH(64)" by simp
  then have "unat (a + of_nat m) = unat a + unat (of_nat m :: u64)"
    by (rule unat_add_lem [THEN iffD1])
  with um show ?thesis by simp
qed

lemma page_addr_less:
  assumes "unat (a :: u64) + Suc n * 4096 < 2 ^ 64"
  shows "a < a + of_nat (Suc n) * 4096"
proof -
  have "unat (a + of_nat (Suc n * 4096)) = unat a + Suc n * 4096"
    by (rule unat_add_pages [OF assms])
  then have "unat a < unat (a + of_nat (Suc n * 4096))" by simp
  then have "a < a + of_nat (Suc n * 4096)" by (simp only: word_less_nat_alt)
  then show ?thesis by simp
qed

lemma page_addr_neq:
  assumes "unat (a :: u64) + Suc k * 4096 < 2 ^ 64"
  shows "a + 4096 + of_nat k * 4096 \<noteq> a"
proof -
  have "a < a + of_nat (Suc k) * 4096" by (rule page_addr_less [OF assms])
  moreover have "a + of_nat (Suc k) * 4096 = a + 4096 + of_nat k * 4096" by simp
  ultimately show ?thesis by auto
qed

lemma unat_next_page:
  assumes "unat (a :: u64) + Suc n * 4096 < 2 ^ 64"
  shows "unat (a + 4096) + n * 4096 < 2 ^ 64"
proof -
  from assms have "unat a + 4096 < 2 ^ 64" by simp
  from unat_add_pages [OF this] have "unat (a + 4096) = unat a + 4096" by simp
  with assms show ?thesis by simp
qed

lemma uvmunmap_cow_loop_pages:
  "unat a + n * 4096 < 2 ^ 64 \<Longrightarrow>
   uvmunmap_cow_loop tab do_free g (a + of_nat n * 4096) a s
     = Some (unmap_pages tab do_free g s a n)"
proof (induction n arbitrary: a s)
  case 0
  show ?case by (subst uvmunmap_cow_loop.simps) simp
next
  case (Suc n)
  have lt: "a < a + of_nat (Suc n) * 4096" by (rule page_addr_less [OF Suc.prems])
  have e: "a + of_nat (Suc n) * 4096 = (a + 4096) + of_nat n * 4096" by simp
  have next_ok: "unat (a + 4096) + n * 4096 < 2 ^ 64" by (rule unat_next_page [OF Suc.prems])
  show ?case
  proof (cases "uvmunmap_cow_page tab do_free g s a")
    case (Inl f)
    with lt show ?thesis by (subst uvmunmap_cow_loop.simps) simp
  next
    case (Inr s')
    have "uvmunmap_cow_loop tab do_free g (a + of_nat (Suc n) * 4096) a s
            = uvmunmap_cow_loop tab do_free g (a + of_nat (Suc n) * 4096) (a + 4096) s'"
      using lt Inr by (subst uvmunmap_cow_loop.simps) simp
    also have "\<dots> = Some (unmap_pages tab do_free g s' (a + 4096) n)"
      unfolding e by (rule Suc.IH [OF next_ok])
    finally show ?thesis using Inr by simp
  qed
qed

subsection \<open>One page, then \<open>n\<close> pages\<close>

lemma uvmunmap_cow_page_result:
  assumes "pt a = Some pte"
      and "pte AND PTE_V = 0 \<or> PTE_FLAGS pte \<noteq> PTE_V"
      and "g = - 1 \<or> get_cow_group tab g \<noteq> None"
  shows "uvmunmap_cow_page tab df g (pt, fr) a
           = Inr (if pte AND PTE_V = 0 then (pt, fr)
                  else (pt(a \<mapsto> 0),
                        if frees_frame tab df g (PTE2PA pte) then fr @ [PTE2PA pte] else fr))"
proof (cases "g = - 1")
  case True
  with assms(1,2) show ?thesis
    by (auto simp: uvmunmap_cow_page_def frees_frame_def is_shmem_def)
next
  case False
  with assms(3) obtain i where i: "get_cow_group tab g = Some i" by auto
  with False assms(1,2) show ?thesis
    by (auto simp: uvmunmap_cow_page_def frees_frame_def is_shmem_def get_cow_group_count_def
        split: bool.splits)
qed

lemma pages_ok_iff:
  "pages_ok pt a n
     \<longleftrightarrow> (\<forall>k<n. \<exists>pte. pt (a + of_nat k * 4096) = Some pte
            \<and> (pte AND PTE_V = 0 \<or> PTE_FLAGS pte \<noteq> PTE_V))"
proof -
  have opt: "(case x of None \<Rightarrow> False | Some pte \<Rightarrow> P pte) \<longleftrightarrow> (\<exists>pte. x = Some pte \<and> P pte)"
    for x :: "pte_t option" and P
    by (cases x) simp_all
  show ?thesis by (auto simp add: pages_ok_def list_all_iff opt)
qed

lemma pages_ok_Suc:
  "pages_ok pt a (Suc n)
     \<longleftrightarrow> (\<exists>pte. pt a = Some pte \<and> (pte AND PTE_V = 0 \<or> PTE_FLAGS pte \<noteq> PTE_V))
         \<and> pages_ok pt (a + 4096) n"
  unfolding pages_ok_iff
  by (subst All_less_Suc2) (simp add: add.assoc distrib_right)

lemma unmap_pages_result:
  assumes "pages_ok pt a n" and "g = - 1 \<or> get_cow_group tab g \<noteq> None"
  shows "\<exists>pt' new. unmap_pages tab df g (pt, fr) a n = Inr (pt', fr @ new)
           \<and> (\<forall>x. pt' x = pt x \<or> (\<exists>pte. pt x = Some pte \<and> pte AND PTE_V \<noteq> 0 \<and> pt' x = Some 0))
           \<and> (\<forall>f\<in>set new. frees_frame tab df g f
                 \<and> (\<exists>k<n. \<exists>pte. pt (a + of_nat k * 4096) = Some pte
                        \<and> pte AND PTE_V \<noteq> 0 \<and> PTE2PA pte = f))"
  using assms(1)
proof (induction n arbitrary: pt fr a)
  case 0
  show ?case by simp
next
  case (Suc n)
  from Suc.prems obtain pte where pte: "pt a = Some pte"
    and leaf: "pte AND PTE_V = 0 \<or> PTE_FLAGS pte \<noteq> PTE_V"
    and rest: "pages_ok pt (a + 4096) n"
    by (auto simp: pages_ok_Suc)
  define pt1 where "pt1 = (if pte AND PTE_V = 0 then pt else pt(a \<mapsto> 0))"
  define d where "d = (if pte AND PTE_V \<noteq> 0 \<and> frees_frame tab df g (PTE2PA pte)
                       then [PTE2PA pte] else [])"
  have step: "uvmunmap_cow_page tab df g (pt, fr) a = Inr (pt1, fr @ d)"
    by (simp add: uvmunmap_cow_page_result [where pt = pt and a = a, OF pte leaf assms(2)] pt1_def d_def)
  have pt1: "pt1 x = pt x \<or> (x = a \<and> pte AND PTE_V \<noteq> 0 \<and> pt1 x = Some 0)" for x
    by (simp add: pt1_def)
  have ok1: "pages_ok pt1 (a + 4096) n"
    unfolding pages_ok_iff
  proof (intro allI impI)
    fix k assume "k < n"
    with rest obtain q where q: "pt (a + 4096 + of_nat k * 4096) = Some q"
      "q AND PTE_V = 0 \<or> PTE_FLAGS q \<noteq> PTE_V"
      by (auto simp: pages_ok_iff)
    from pt1 [of "a + 4096 + of_nat k * 4096"]
    show "\<exists>pte. pt1 (a + 4096 + of_nat k * 4096) = Some pte
            \<and> (pte AND PTE_V = 0 \<or> PTE_FLAGS pte \<noteq> PTE_V)"
    proof
      assume "pt1 (a + 4096 + of_nat k * 4096) = pt (a + 4096 + of_nat k * 4096)"
      with q show ?thesis by simp
    next
      assume "a + 4096 + of_nat k * 4096 = a \<and> pte AND PTE_V \<noteq> 0
                \<and> pt1 (a + 4096 + of_nat k * 4096) = Some 0"
      then show ?thesis by simp
    qed
  qed
  from Suc.IH [OF ok1, of "fr @ d"] obtain pt' new where
    run: "unmap_pages tab df g (pt1, fr @ d) (a + 4096) n = Inr (pt', fr @ d @ new)"
    and tbl: "\<forall>x. pt' x = pt1 x \<or> (\<exists>q. pt1 x = Some q \<and> q AND PTE_V \<noteq> 0 \<and> pt' x = Some 0)"
    and frs: "\<forall>f\<in>set new. frees_frame tab df g f
                 \<and> (\<exists>k<n. \<exists>q. pt1 (a + 4096 + of_nat k * 4096) = Some q
                        \<and> q AND PTE_V \<noteq> 0 \<and> PTE2PA q = f)"
    by auto
  have r1: "unmap_pages tab df g (pt, fr) a (Suc n) = Inr (pt', fr @ (d @ new))"
    using step run by simp
  have r2: "pt' x = pt x \<or> (\<exists>q. pt x = Some q \<and> q AND PTE_V \<noteq> 0 \<and> pt' x = Some 0)" for x
    using tbl [rule_format, of x] pt1 [of x] pte by auto
  have r3: "frees_frame tab df g f
              \<and> (\<exists>k<Suc n. \<exists>q. pt (a + of_nat k * 4096) = Some q
                    \<and> q AND PTE_V \<noteq> 0 \<and> PTE2PA q = f)"
    if f: "f \<in> set (d @ new)" for f
  proof (cases "f \<in> set d")
    case True
    then have "pte AND PTE_V \<noteq> 0" "frees_frame tab df g (PTE2PA pte)" "f = PTE2PA pte"
      by (auto simp: d_def split: if_splits)
    with pte have "frees_frame tab df g f
      \<and> (\<exists>q. pt (a + of_nat 0 * 4096) = Some q \<and> q AND PTE_V \<noteq> 0 \<and> PTE2PA q = f)"
      by simp
    then show ?thesis by blast
  next
    case False
    with f have "f \<in> set new" by simp
    with frs obtain k q where k: "k < n" and fq: "frees_frame tab df g f"
      and q: "pt1 (a + 4096 + of_nat k * 4096) = Some q" "q AND PTE_V \<noteq> 0" "PTE2PA q = f"
      by blast
    from pt1 [of "a + 4096 + of_nat k * 4096"] q
    have "pt (a + 4096 + of_nat k * 4096) = Some q" by auto
    then have "pt (a + of_nat (Suc k) * 4096) = Some q" by (simp add: add.assoc distrib_right)
    with k q fq show ?thesis by (metis Suc_less_eq)
  qed
  from r1 r2 r3 show ?case by blast
qed

lemma unmap_pages_frees:
  assumes "g = - 1 \<or> get_cow_group tab g \<noteq> None"
  shows "pages_ok pt a n \<Longrightarrow> unat a + n * 4096 < 2 ^ 64 \<Longrightarrow> k < n \<Longrightarrow>
         pt (a + of_nat k * 4096) = Some pte \<Longrightarrow> pte AND PTE_V \<noteq> 0 \<Longrightarrow>
         frees_frame tab df g (PTE2PA pte) \<Longrightarrow>
         unmap_pages tab df g (pt, fr) a n = Inr (pt', fr') \<Longrightarrow> PTE2PA pte \<in> set fr'"
proof (induction n arbitrary: k pt fr a)
  case 0
  then show ?case by simp
next
  case (Suc n)
  from Suc.prems(1) obtain p0 where p0: "pt a = Some p0"
    and leaf: "p0 AND PTE_V = 0 \<or> PTE_FLAGS p0 \<noteq> PTE_V"
    and rest: "pages_ok pt (a + 4096) n"
    by (auto simp: pages_ok_Suc)
  define pt1 where "pt1 = (if p0 AND PTE_V = 0 then pt else pt(a \<mapsto> 0))"
  define d where "d = (if p0 AND PTE_V \<noteq> 0 \<and> frees_frame tab df g (PTE2PA p0)
                       then [PTE2PA p0] else [])"
  have step: "uvmunmap_cow_page tab df g (pt, fr) a = Inr (pt1, fr @ d)"
    by (simp add: uvmunmap_cow_page_result [where pt = pt and a = a, OF p0 leaf assms] pt1_def d_def)
  with Suc.prems(7) have run: "unmap_pages tab df g (pt1, fr @ d) (a + 4096) n = Inr (pt', fr')"
    by simp
  have ok1: "pages_ok pt1 (a + 4096) n"
    using rest by (auto simp: pages_ok_iff pt1_def)
  show ?case
  proof (cases k)
    case 0
    with Suc.prems(4) p0 have "p0 = pte" by simp
    with Suc.prems(5,6) have "PTE2PA pte \<in> set (fr @ d)" by (simp add: d_def)
    moreover from unmap_pages_result [OF ok1 assms, of df "fr @ d"] run
    obtain new where "fr' = (fr @ d) @ new" by auto
    ultimately show ?thesis by auto
  next
    case (Suc k')
    have nowrap: "unat (a + 4096) + n * 4096 < 2 ^ 64"
      by (rule unat_next_page [OF Suc.prems(2)])
    from Suc.prems(3) Suc have k': "k' < n" by simp
    with Suc.prems(2) have "unat a + Suc k' * 4096 < 2 ^ 64" by simp
    then have ne: "a + 4096 + of_nat k' * 4096 \<noteq> a" by (rule page_addr_neq)
    from Suc.prems(4) Suc have "pt (a + 4096 + of_nat k' * 4096) = Some pte"
      by (simp add: add.assoc distrib_right)
    with ne have at: "pt1 (a + 4096 + of_nat k' * 4096) = Some pte" by (simp add: pt1_def)
    from Suc.IH [OF ok1 nowrap k' at Suc.prems(5,6) run] show ?thesis .
  qed
qed

lemma unmap_pages_clears:
  assumes "g = - 1 \<or> get_cow_group tab g \<noteq> None"
  shows "pages_ok pt a n \<Longrightarrow> k < n \<Longrightarrow>
         pt (a + of_nat k * 4096) = Some pte \<Longrightarrow> pte AND PTE_V \<noteq> 0 \<Longrightarrow>
         unmap_pages tab df g (pt, fr) a n = Inr (pt', fr') \<Longrightarrow>
         pt' (a + of_nat k * 4096) = Some 0"
proof (induction n arbitrary: k pt fr a)
  case 0
  then show ?case by simp
next
  case (Suc n)
  from Suc.prems(1) obtain p0 where p0: "pt a = Some p0"
    and leaf: "p0 AND PTE_V = 0 \<or> PTE_FLAGS p0 \<noteq> PTE_V"
    and rest: "pages_ok pt (a + 4096) n"
    by (auto simp: pages_ok_Suc)
  define pt1 where "pt1 = (if p0 AND PTE_V = 0 then pt else pt(a \<mapsto> 0))"
  define d where "d = (if p0 AND PTE_V \<noteq> 0 \<and> frees_frame tab df g (PTE2PA p0)
                       then [PTE2PA p0] else [])"
  have step: "uvmunmap_cow_page tab df g (pt, fr) a = Inr (pt1, fr @ d)"
    by (simp add: uvmunmap_cow_page_result [where pt = pt and a = a, OF p0 leaf assms]
        pt1_def d_def)
  with Suc.prems(5) have run: "unmap_pages tab df g (pt1, fr @ d) (a + 4096) n = Inr (pt', fr')"
    by simp
  have ok1: "pages_ok pt1 (a + 4096) n"
    using rest by (auto simp: pages_ok_iff pt1_def)
  from unmap_pages_result [OF ok1 assms, of df "fr @ d"] run
  have tbl: "pt' x = pt1 x \<or> (\<exists>q. pt1 x = Some q \<and> q AND PTE_V \<noteq> 0 \<and> pt' x = Some 0)" for x
    by auto
  let ?x = "a + of_nat k * 4096"
  have zero: "(0 :: u64) AND PTE_V = 0" by simp
  show ?case
  proof (cases "pt1 ?x = Some 0")
    case True
    with tbl [of ?x] zero show ?thesis by auto
  next
    case False
    have same: "pt1 ?x = Some pte"
      using False Suc.prems(3) by (auto simp: pt1_def split: if_splits)
    show ?thesis
    proof (cases k)
      case 0
      with Suc.prems(3,4) p0 have "pt1 a = Some 0" by (simp add: pt1_def)
      with 0 False show ?thesis by simp
    next
      case (Suc k')
      from Suc.prems(2) Suc have k': "k' < n" by simp
      have addr: "a + 4096 + of_nat k' * 4096 = ?x" using Suc by (simp add: add.assoc distrib_right)
      from same have at: "pt1 (a + 4096 + of_nat k' * 4096) = Some pte" by (simp only: addr)
      from Suc.IH [OF ok1 k' at Suc.prems(4) run] show ?thesis by (simp only: addr)
    qed
  qed
qed

lemma uvmunmap_cow_pages:
  assumes "va mod 4096 = 0" and "unat va + unat npages * 4096 < 2 ^ 64"
  shows "uvmunmap_cow tab pt va npages df g
           = Some (unmap_pages tab df g (pt, []) va (unat npages))"
proof -
  have "uvmunmap_cow_loop tab df g (va + of_nat (unat npages) * 4096) va (pt, [])
          = Some (unmap_pages tab df g (pt, []) va (unat npages))"
    by (rule uvmunmap_cow_loop_pages [OF assms(2)])
  with assms(1) show ?thesis by (simp add: uvmunmap_cow_def)
qed

text \<open>
  Claim C10. On a page-aligned range that does not wrap, where \<open>walk\<close> finds an entry for
  every page and every valid entry is a leaf, \<open>uvmunmap_cow\<close> returns for every group id that
  is the sentinel or in the registry. An entry that is not marked present is left exactly as
  it was, and every frame handed to \<open>kfree\<close> is the frame of an entry of the range that was
  marked present: a page that is not present is passed over and frees nothing.
\<close>

theorem uvmunmap_cow_skips_holes:
  assumes "va mod 4096 = 0"
      and "unat va + unat npages * 4096 < 2 ^ 64"
      and "pages_ok pt va (unat npages)"
      and "g = - 1 \<or> get_cow_group tab g \<noteq> None"
  shows "\<exists>pt' freed. uvmunmap_cow tab pt va npages do_free g = Some (Inr (pt', freed))
           \<and> (\<forall>a pte. pt a = Some pte \<and> pte AND PTE_V = 0 \<longrightarrow> pt' a = Some pte)
           \<and> (\<forall>f\<in>set freed. \<exists>k<unat npages. \<exists>pte. pt (va + of_nat k * 4096) = Some pte
                  \<and> pte AND PTE_V \<noteq> 0 \<and> PTE2PA pte = f)"
proof -
  from unmap_pages_result [OF assms(3,4), of do_free "[]"] obtain pt' new where
    run: "unmap_pages tab do_free g (pt, []) va (unat npages) = Inr (pt', new)"
    and tbl: "\<forall>x. pt' x = pt x \<or> (\<exists>pte. pt x = Some pte \<and> pte AND PTE_V \<noteq> 0 \<and> pt' x = Some 0)"
    and frs: "\<forall>f\<in>set new. frees_frame tab do_free g f
                 \<and> (\<exists>k<unat npages. \<exists>pte. pt (va + of_nat k * 4096) = Some pte
                        \<and> pte AND PTE_V \<noteq> 0 \<and> PTE2PA pte = f)"
    by auto
  have "uvmunmap_cow tab pt va npages do_free g = Some (Inr (pt', new))"
    by (simp add: uvmunmap_cow_pages [OF assms(1,2)] run)
  moreover have "\<forall>a pte. pt a = Some pte \<and> pte AND PTE_V = 0 \<longrightarrow> pt' a = Some pte"
    using tbl by (metis option.inject)
  ultimately show ?thesis using frs by blast
qed

subsection \<open>Teardown of a whole process\<close>

lemma npages_no_wrap: "unat (0 :: u64) + unat (x div 4096 :: u64) * 4096 < 2 ^ 64"
proof -
  have "unat (x div 4096) = unat x div 4096" by (simp add: unat_div)
  moreover have "unat x div 4096 * 4096 \<le> unat x" by simp
  moreover have "unat x < 2 ^ 64" using unsigned_less [of x] by simp
  ultimately show ?thesis by simp
qed

lemma uvmfree_cow_pages:
  "uvmfree_cow tab pt sz g = Some (unmap_pages tab 1 g (pt, []) 0 (unat (PGROUNDUP sz div 4096)))"
proof (cases "sz > 0")
  case True
  then show ?thesis
    by (simp add: uvmfree_cow_def uvmunmap_cow_pages [OF _ npages_no_wrap])
next
  case False
  then have "sz = 0" by (simp add: word_gt_0)
  then show ?thesis by (simp add: uvmfree_cow_def PGROUNDUP_def)
qed

lemma uvmunmap_one_cases:
  "uvmunmap_one pt va x = pt x \<or> (x = va \<and> pt x \<noteq> None \<and> uvmunmap_one pt va x = Some 0)"
  by (auto simp: uvmunmap_one_def split: option.splits)

lemma pages_ok_uvmunmap_one: "pages_ok pt a n \<Longrightarrow> pages_ok (uvmunmap_one pt va) a n"
  unfolding pages_ok_iff
proof (intro allI impI)
  fix k assume a: "\<forall>k<n. \<exists>pte. pt (a + of_nat k * 4096) = Some pte
      \<and> (pte AND PTE_V = 0 \<or> PTE_FLAGS pte \<noteq> PTE_V)" and k: "k < n"
  then obtain q where "pt (a + of_nat k * 4096) = Some q" "q AND PTE_V = 0 \<or> PTE_FLAGS q \<noteq> PTE_V"
    by blast
  with uvmunmap_one_cases [of pt va "a + of_nat k * 4096"]
  show "\<exists>pte. uvmunmap_one pt va (a + of_nat k * 4096) = Some pte
      \<and> (pte AND PTE_V = 0 \<or> PTE_FLAGS pte \<noteq> PTE_V)"
    by auto
qed

text \<open>
  Claim C1. For a process of a group that is in the registry, whose pages below its size all
  have entries, \<open>proc_freepagetable_cow\<close> returns; the registry it leaves is the one it found
  with the group's count decremented, and the unmapping before it read the count as it was.
  While that count is not 0 no frame of the group's shared set is freed; a frame that is
  not shared is freed whatever the count, and a shared one is freed when the count is 0, that
  is by the last member to tear down. In the page table that is left, every entry of the
  range that was present is cleared, shared or not, and no page of the range is present. The
  witness is the scenario of P and its child C.
\<close>

theorem proc_freepagetable_cow_frees:
  assumes "get_cow_group tab g = Some i"
      and "pages_ok pt 0 (unat (PGROUNDUP sz div 4096))"
  shows "\<exists>tab' pt' freed.
           proc_freepagetable_cow tab pt sz g = Some (Inr (tab', pt', freed))
           \<and> decr_cow_group_count tab g = Inr tab'
           \<and> get_cow_group_count tab' g = Inr (count (tab ! i) - 1)
           \<and> (count (tab ! i) \<noteq> 0 \<longrightarrow> (\<forall>f\<in>set freed. is_shmem tab g f = Inr False))
           \<and> (\<forall>k pte. k < unat (PGROUNDUP sz div 4096)
                 \<and> of_nat k * 4096 \<noteq> TRAMPOLINE \<and> of_nat k * 4096 \<noteq> TRAPFRAME
                 \<and> pt (of_nat k * 4096) = Some pte \<and> pte AND PTE_V \<noteq> 0
                 \<and> (is_shmem tab g (PTE2PA pte) = Inr False \<or> count (tab ! i) = 0)
                 \<longrightarrow> PTE2PA pte \<in> set freed)
           \<and> (\<forall>k pte. k < unat (PGROUNDUP sz div 4096)
                 \<and> pt (of_nat k * 4096) = Some pte \<and> pte AND PTE_V \<noteq> 0
                 \<longrightarrow> pt' (of_nat k * 4096) = Some 0)
           \<and> (\<forall>k<unat (PGROUNDUP sz div 4096).
                 \<exists>q. pt' (of_nat k * 4096) = Some q \<and> q AND PTE_V = 0)"
proof -
  let ?n = "unat (PGROUNDUP sz div 4096)"
  let ?pt2 = "uvmunmap_one (uvmunmap_one pt TRAMPOLINE) TRAPFRAME"
  from assms(1) have grp: "g = - 1 \<or> get_cow_group tab g \<noteq> None" by simp
  from assms(1) have i: "i < length tab" and gi: "g \<noteq> - 1" by (simp_all add: get_cow_group_Some)
  have cnt: "get_cow_group_count tab g = Inr (count (tab ! i))"
    using assms(1) by (simp add: get_cow_group_count_def)
  have ok2: "pages_ok ?pt2 0 ?n"
    by (intro pages_ok_uvmunmap_one assms(2))
  from unmap_pages_result [OF ok2 grp, of 1 "[]"] obtain pt' freed where
    run: "unmap_pages tab 1 g (?pt2, []) 0 ?n = Inr (pt', freed)"
    and tbl: "\<forall>x. pt' x = ?pt2 x
                \<or> (\<exists>q. ?pt2 x = Some q \<and> q AND PTE_V \<noteq> 0 \<and> pt' x = Some 0)"
    and frs: "\<forall>f\<in>set freed. frees_frame tab 1 g f" by auto
  let ?tab' = "tab[i := (tab ! i)\<lparr>count := count (tab ! i) - 1\<rparr>]"
  have decr: "decr_cow_group_count tab g = Inr ?tab'"
    using assms(1) cnt by (simp add: decr_cow_group_count_def)
  have res: "proc_freepagetable_cow tab pt sz g = Some (Inr (?tab', pt', freed))"
    by (simp add: proc_freepagetable_cow_def uvmfree_cow_pages run decr)
  have "get_cow_group ?tab' g = Some i"
    using assms(1) by (simp add: get_cow_group_update)
  with i have cnt': "get_cow_group_count ?tab' g = Inr (count (tab ! i) - 1)"
    by (simp add: get_cow_group_count_def)
  have nofree: "count (tab ! i) \<noteq> 0 \<longrightarrow> (\<forall>f\<in>set freed. is_shmem tab g f = Inr False)"
    using frs cnt by (auto simp: frees_frame_def)
  have live: "PTE2PA pte \<in> set freed"
    if k: "k < ?n" and nt: "of_nat k * 4096 \<noteq> TRAMPOLINE" "of_nat k * 4096 \<noteq> TRAPFRAME"
      and pte: "pt (of_nat k * 4096) = Some pte" "pte AND PTE_V \<noteq> 0"
      and fr: "is_shmem tab g (PTE2PA pte) = Inr False \<or> count (tab ! i) = 0"
    for k pte
  proof -
    from nt pte(1) have at: "?pt2 (0 + of_nat k * 4096) = Some pte"
      by (simp add: uvmunmap_one_def split: option.splits)
    from fr cnt have ff: "frees_frame tab 1 g (PTE2PA pte)"
      by (auto simp: frees_frame_def)
    show ?thesis
      by (rule unmap_pages_frees [OF grp ok2 npages_no_wrap k at pte(2) ff run])
  qed
  have zero: "(0 :: u64) AND PTE_V = 0" by simp
  have pt2: "?pt2 x = pt x \<or> ?pt2 x = Some 0" for x
    using uvmunmap_one_cases [of "uvmunmap_one pt TRAMPOLINE" TRAPFRAME x]
      uvmunmap_one_cases [of pt TRAMPOLINE x]
    by auto
  have cleared: "pt' (of_nat k * 4096) = Some 0"
    if k: "k < ?n" and pte: "pt (of_nat k * 4096) = Some pte" "pte AND PTE_V \<noteq> 0"
    for k pte
  proof (cases "?pt2 (of_nat k * 4096) = Some 0")
    case True
    with tbl [rule_format, of "of_nat k * 4096"] zero show ?thesis by auto
  next
    case False
    with pt2 [of "of_nat k * 4096"] pte(1)
    have at: "?pt2 (0 + of_nat k * 4096) = Some pte" by auto
    from unmap_pages_clears [OF grp ok2 k at pte(2) run] show ?thesis by simp
  qed
  have absent: "\<exists>q. pt' (of_nat k * 4096) = Some q \<and> q AND PTE_V = 0" if k: "k < ?n" for k
  proof -
    from assms(2) k obtain pte where pte: "pt (of_nat k * 4096) = Some pte"
      by (auto simp: pages_ok_iff)
    show ?thesis
    proof (cases "pte AND PTE_V = 0")
      case False
      from cleared [OF k pte False] zero show ?thesis by simp
    next
      case True
      with pt2 [of "of_nat k * 4096"] pte zero
      have inv: "\<exists>q. ?pt2 (of_nat k * 4096) = Some q \<and> q AND PTE_V = 0" by auto
      with tbl [rule_format, of "of_nat k * 4096"] show ?thesis by auto
    qed
  qed
  from res decr cnt' nofree live cleared absent show ?thesis by blast
qed

lemma pc_table_group: "get_cow_group pc_table 7 = Some 0"
  by (simp add: pc_table_def get_cow_group_def)

lemma pt_parent_ok: "pages_ok pt_parent 0 3"
  by (simp add: pages_ok_def pt_parent_def upt_rec PTE_V_def PTE_FLAGS_def
      TRAMPOLINE_def TRAPFRAME_def)

lemma pt_child_ok: "pages_ok pt_child 0 2"
  by (simp add: pages_ok_def pt_child_def upt_rec PTE_V_def PTE_FLAGS_def
      TRAMPOLINE_def TRAPFRAME_def)

theorem uvmunmap_cow_skips_holes_witness:
  "\<exists>pt' freed. uvmunmap_cow pc_table pt_parent 0 3 1 7 = Some (Inr (pt', freed))
     \<and> pt' 0x2000 = Some 0 \<and> 0 \<notin> set freed"
proof -
  have h1: "(0 :: u64) mod 4096 = 0" by simp
  have h2: "unat (0 :: u64) + unat (3 :: u64) * 4096 < 2 ^ 64" by simp
  have h3: "pages_ok pt_parent 0 (unat (3 :: u64))" using pt_parent_ok by simp
  have h4: "(7 :: cint) = - 1 \<or> get_cow_group pc_table 7 \<noteq> None" by (simp add: pc_table_group)
  from uvmunmap_cow_skips_holes [OF h1 h2 h3 h4, of 1] obtain pt' freed where
    run: "uvmunmap_cow pc_table pt_parent 0 3 1 7 = Some (Inr (pt', freed))"
    and holes: "\<forall>a pte. pt_parent a = Some pte \<and> pte AND PTE_V = 0 \<longrightarrow> pt' a = Some pte"
    and frs: "\<forall>f\<in>set freed. \<exists>k<unat (3 :: u64). \<exists>pte. pt_parent (0 + of_nat k * 4096) = Some pte
                  \<and> pte AND PTE_V \<noteq> 0 \<and> PTE2PA pte = f"
    by blast
  have "pt_parent 0x2000 = Some 0 \<and> (0 :: u64) AND PTE_V = 0"
    by (simp add: pt_parent_def PTE_V_def)
  with holes have hole: "pt' 0x2000 = Some 0" by blast
  have "0 \<notin> set freed"
  proof
    assume "0 \<in> set freed"
    with frs obtain k pte where k: "k < 3" and pte: "pt_parent (0 + of_nat k * 4096) = Some pte"
      "pte AND PTE_V \<noteq> 0" "PTE2PA pte = 0"
      by auto
    from k have "k = 0 \<or> k = 1 \<or> k = 2" by auto
    with pte show False
      by (auto simp: pt_parent_def PTE_V_def PTE2PA_def)
  qed
  with run hole show ?thesis by blast
qed

lemma pc_table_shared: "is_shmem pc_table 7 0x80001000 = Inr True"
proof -
  have "is_shmem_scan (shmem (pc_table ! 0)) 0x80001000 0"
    by (subst is_shmem_scan.simps) (simp add: pc_table_def SHMEM_MAX_def)
  then show ?thesis by (simp add: is_shmem_def pc_table_group)
qed

lemma pc_table_private: "is_shmem pc_table 7 0x80002000 = Inr False"
proof -
  have "\<not> is_shmem_scan (shmem (pc_table ! 0)) 0x80002000 0"
    by (subst is_shmem_scan.simps, subst is_shmem_scan.simps)
      (simp add: pc_table_def SHMEM_MAX_def)
  then show ?thesis by (simp add: is_shmem_def pc_table_group)
qed

theorem proc_freepagetable_cow_frees_witness:
  "\<exists>tab1 ptP frP tab2 ptC frC.
     proc_freepagetable_cow pc_table pt_parent 0x3000 7 = Some (Inr (tab1, ptP, frP))
     \<and> 0x80001000 \<notin> set frP \<and> 0x80002000 \<in> set frP
     \<and> ptP 0 = Some 0 \<and> ptP 0x1000 = Some 0
     \<and> get_cow_group_count tab1 7 = Inr 0
     \<and> proc_freepagetable_cow tab1 pt_child 0x2000 7 = Some (Inr (tab2, ptC, frC))
     \<and> 0x80001000 \<in> set frC
     \<and> ptC 0 = Some 0 \<and> ptC 0x1000 = Some 0"
proof -
  have nP: "unat (PGROUNDUP 0x3000 div 4096) = 3" by (simp add: PGROUNDUP_def)
  have nC: "unat (PGROUNDUP 0x2000 div 4096) = 2" by (simp add: PGROUNDUP_def)
  have okP: "pages_ok pt_parent 0 (unat (PGROUNDUP 0x3000 div 4096))"
    by (simp only: nP pt_parent_ok)
  have okC: "pages_ok pt_child 0 (unat (PGROUNDUP 0x2000 div 4096))"
    by (simp only: nC pt_child_ok)
  have c1: "count (pc_table ! 0) = 1" by (simp add: pc_table_def)
  from proc_freepagetable_cow_frees [OF pc_table_group okP] obtain tab1 ptP frP where
    runP: "proc_freepagetable_cow pc_table pt_parent 0x3000 7 = Some (Inr (tab1, ptP, frP))"
    and decr: "decr_cow_group_count pc_table 7 = Inr tab1"
    and cnt1: "get_cow_group_count tab1 7 = Inr (count (pc_table ! 0) - 1)"
    and keep: "count (pc_table ! 0) \<noteq> 0 \<longrightarrow> (\<forall>f\<in>set frP. is_shmem pc_table 7 f = Inr False)"
    and liveP: "\<forall>k pte. k < unat (PGROUNDUP 0x3000 div 4096)
                 \<and> of_nat k * 4096 \<noteq> TRAMPOLINE \<and> of_nat k * 4096 \<noteq> TRAPFRAME
                 \<and> pt_parent (of_nat k * 4096) = Some pte \<and> pte AND PTE_V \<noteq> 0
                 \<and> (is_shmem pc_table 7 (PTE2PA pte) = Inr False \<or> count (pc_table ! 0) = 0)
                 \<longrightarrow> PTE2PA pte \<in> set frP"
    and clrP: "\<forall>k pte. k < unat (PGROUNDUP 0x3000 div 4096)
                 \<and> pt_parent (of_nat k * 4096) = Some pte \<and> pte AND PTE_V \<noteq> 0
                 \<longrightarrow> ptP (of_nat k * 4096) = Some 0"
    by blast
  have "(0 :: nat) < unat (PGROUNDUP 0x3000 div 4096)
          \<and> pt_parent (of_nat 0 * 4096) = Some 0x2000041B \<and> 0x2000041B AND PTE_V \<noteq> 0"
    by (simp add: nP pt_parent_def PTE_V_def)
  with clrP have "ptP (of_nat 0 * 4096) = Some 0" by blast
  then have p0: "ptP 0 = Some 0" by simp
  have "(1 :: nat) < unat (PGROUNDUP 0x3000 div 4096)
          \<and> pt_parent (of_nat 1 * 4096) = Some 0x20000817 \<and> 0x20000817 AND PTE_V \<noteq> 0"
    by (simp add: nP pt_parent_def PTE_V_def)
  with clrP have "ptP (of_nat 1 * 4096) = Some 0" by blast
  then have p1: "ptP 0x1000 = Some 0" by simp
  from keep c1 pc_table_shared have xP: "0x80001000 \<notin> set frP" by auto
  have "(1 :: nat) < unat (PGROUNDUP 0x3000 div 4096)
          \<and> of_nat 1 * 4096 \<noteq> TRAMPOLINE \<and> of_nat 1 * 4096 \<noteq> TRAPFRAME
          \<and> pt_parent (of_nat 1 * 4096) = Some 0x20000817 \<and> 0x20000817 AND PTE_V \<noteq> 0
          \<and> (is_shmem pc_table 7 (PTE2PA 0x20000817) = Inr False \<or> count (pc_table ! 0) = 0)"
    using pc_table_private
    by (simp add: nP TRAMPOLINE_def TRAPFRAME_def pt_parent_def PTE_V_def PTE2PA_def)
  with liveP have "PTE2PA 0x20000817 \<in> set frP" by blast
  then have yP: "0x80002000 \<in> set frP" by (simp add: PTE2PA_def)
  from cnt1 c1 have cz: "get_cow_group_count tab1 7 = Inr 0" by simp
  then obtain j where grp1: "get_cow_group tab1 7 = Some j" and cj: "count (tab1 ! j) = 0"
    by (auto simp: get_cow_group_count_def split: option.splits)
  have okC': "pages_ok pt_child 0 (unat (PGROUNDUP 0x2000 div 4096))" by (rule okC)
  from proc_freepagetable_cow_frees [OF grp1 okC'] obtain tab2 ptC frC where
    runC: "proc_freepagetable_cow tab1 pt_child 0x2000 7 = Some (Inr (tab2, ptC, frC))"
    and liveC: "\<forall>k pte. k < unat (PGROUNDUP 0x2000 div 4096)
                 \<and> of_nat k * 4096 \<noteq> TRAMPOLINE \<and> of_nat k * 4096 \<noteq> TRAPFRAME
                 \<and> pt_child (of_nat k * 4096) = Some pte \<and> pte AND PTE_V \<noteq> 0
                 \<and> (is_shmem tab1 7 (PTE2PA pte) = Inr False \<or> count (tab1 ! j) = 0)
                 \<longrightarrow> PTE2PA pte \<in> set frC"
    and clrC: "\<forall>k pte. k < unat (PGROUNDUP 0x2000 div 4096)
                 \<and> pt_child (of_nat k * 4096) = Some pte \<and> pte AND PTE_V \<noteq> 0
                 \<longrightarrow> ptC (of_nat k * 4096) = Some 0"
    by blast
  have "(0 :: nat) < unat (PGROUNDUP 0x2000 div 4096)
          \<and> pt_child (of_nat 0 * 4096) = Some 0x2000041B \<and> 0x2000041B AND PTE_V \<noteq> 0"
    by (simp add: nC pt_child_def PTE_V_def)
  with clrC have "ptC (of_nat 0 * 4096) = Some 0" by blast
  then have q0: "ptC 0 = Some 0" by simp
  have "(1 :: nat) < unat (PGROUNDUP 0x2000 div 4096)
          \<and> pt_child (of_nat 1 * 4096) = Some 0x20000C17 \<and> 0x20000C17 AND PTE_V \<noteq> 0"
    by (simp add: nC pt_child_def PTE_V_def)
  with clrC have "ptC (of_nat 1 * 4096) = Some 0" by blast
  then have q1: "ptC 0x1000 = Some 0" by simp
  have "(0 :: nat) < unat (PGROUNDUP 0x2000 div 4096)
          \<and> of_nat 0 * 4096 \<noteq> TRAMPOLINE \<and> of_nat 0 * 4096 \<noteq> TRAPFRAME
          \<and> pt_child (of_nat 0 * 4096) = Some 0x2000041B \<and> 0x2000041B AND PTE_V \<noteq> 0
          \<and> (is_shmem tab1 7 (PTE2PA 0x2000041B) = Inr False \<or> count (tab1 ! j) = 0)"
    using cj by (simp add: nC TRAMPOLINE_def TRAPFRAME_def pt_child_def PTE_V_def)
  with liveC have "PTE2PA 0x2000041B \<in> set frC" by blast
  then have xC: "0x80001000 \<in> set frC" by (simp add: PTE2PA_def)
  from runP xP yP p0 p1 cz runC xC q0 q1 show ?thesis by blast
qed
section \<open>Properties of the swap allocation scan\<close>

lemma scan_inv_start: "scan_inv tr 0 0 0"
  by (simp add: scan_inv_def)

lemma find_free_blocks_found:
  "scan_inv tr i blockno fb \<Longrightarrow> free_run tr r \<Longrightarrow>
   \<exists>b. find_free_blocks tr i blockno fb
         = (b, tr[b := True, b + 1 := True, b + 2 := True, b + 3 := True])
       \<and> free_run tr b \<and> (\<forall>c<b. \<not> free_run tr c)"
proof (induction tr i blockno fb rule: find_free_blocks.induct)
  case (1 tr i blockno fb)
  from "1.prems"(1) have fb: "fb < 4" "fb \<le> i"
    and free: "\<forall>j. i - fb \<le> j \<and> j < i \<longrightarrow> \<not> tr ! j"
    and bl: "fb = 0 \<or> blockno = i - fb"
    and least: "\<forall>b<i - fb. \<not> free_run tr b"
    by (auto simp: scan_inv_def list_all_iff)
  from least "1.prems"(2) have r: "i - fb \<le> r" by (auto simp: not_less [symmetric])
  from "1.prems"(2) have r3: "r + 3 < length tr" by (simp add: free_run_def)
  with r fb have lt: "i < length tr" by arith
  show ?case
  proof (cases "tr ! i")
    case True
    have "scan_inv tr (Suc i) blockno 0"
      unfolding scan_inv_def
    proof (intro conjI)
      show "list_all (\<lambda>b. \<not> free_run tr b) [0..<Suc i - 0]"
        unfolding list_all_iff
      proof
        fix b assume "b \<in> set [0..<Suc i - 0]"
        then have b: "b \<le> i" by auto
        show "\<not> free_run tr b"
        proof (cases "b < i - fb")
          case True
          with least show ?thesis by simp
        next
          case False
          with fb b have "i = b \<or> i = b + 1 \<or> i = b + 2 \<or> i = b + 3" by arith
          with \<open>tr ! i\<close> show ?thesis by (auto simp: free_run_def)
        qed
      qed
    qed simp_all
    from "1.IH"(2) [OF lt _ this "1.prems"(2)] True lt show ?thesis
      by (subst find_free_blocks.simps) simp
  next
    case False
    let ?b = "if fb = 0 then i else blockno"
    from bl have b: "?b = i - fb" by auto
    show ?thesis
    proof (cases "fb + 1 = 4")
      case True
      then have fb3: "fb = 3" by simp
      with fb have i3: "3 \<le> i" by simp
      from b fb3 have b3: "?b = i - 3" by simp
      have run: "free_run tr (i - 3)"
        using free False lt i3 fb3 by (auto simp: free_run_def)
      from least fb3 have "\<forall>c<i - 3. \<not> free_run tr c" by simp
      with run b3 lt False True show ?thesis
        by (subst find_free_blocks.simps) (simp add: Let_def)
    next
      case nf: False
      have inv: "scan_inv tr (Suc i) ?b (fb + 1)"
        unfolding scan_inv_def list_all_iff
        using fb nf free False least b
        by (auto simp: less_Suc_eq)
      from "1.IH"(1) [OF lt False refl refl nf inv "1.prems"(2)] lt False nf show ?thesis
        by (subst find_free_blocks.simps) (simp add: Let_def)
    qed
  qed
qed

lemma find_free_blocks_none:
  "scan_inv tr i blockno fb \<Longrightarrow> \<forall>b. \<not> free_run tr b \<Longrightarrow>
   snd (find_free_blocks tr i blockno fb) = tr"
proof (induction tr i blockno fb rule: find_free_blocks.induct)
  case (1 tr i blockno fb)
  from "1.prems"(1) have fb: "fb < 4" "fb \<le> i"
    and free: "\<forall>j. i - fb \<le> j \<and> j < i \<longrightarrow> \<not> tr ! j"
    and bl: "fb = 0 \<or> blockno = i - fb"
    by (auto simp: scan_inv_def list_all_iff)
  from "1.prems"(2) have least: "list_all (\<lambda>b. \<not> free_run tr b) xs" for xs
    by (simp add: list_all_iff)
  show ?case
  proof (cases "i < length tr")
    case False
    then show ?thesis by (subst find_free_blocks.simps) simp
  next
    case lt: True
    show ?thesis
    proof (cases "tr ! i")
      case True
      have "scan_inv tr (Suc i) blockno 0"
        by (simp add: scan_inv_def least)
      from "1.IH"(2) [OF lt _ this "1.prems"(2)] True lt show ?thesis
        by (subst find_free_blocks.simps) simp
    next
      case False
      let ?b = "if fb = 0 then i else blockno"
      from bl have b: "?b = i - fb" by auto
      have nf: "fb + 1 \<noteq> 4"
      proof
        assume "fb + 1 = 4"
        then have fb3: "fb = 3" by simp
        with fb have "3 \<le> i" by simp
        with free False lt fb3 have "free_run tr (i - 3)" by (auto simp: free_run_def)
        with "1.prems"(2) show False by simp
      qed
      have inv: "scan_inv tr (Suc i) ?b (fb + 1)"
        unfolding scan_inv_def
        using fb nf free False b "1.prems"(2)
        by (auto simp: less_Suc_eq list_all_iff)
      from "1.IH"(1) [OF lt False refl refl nf inv "1.prems"(2)] lt False nf show ?thesis
        by (subst find_free_blocks.simps) (simp add: Let_def)
    qed
  qed
qed

lemma alloc_blocks_first_run:
  assumes "free_run tr r"
  shows "\<exists>b. alloc_blocks tr = (b, tr[b := True, b + 1 := True, b + 2 := True, b + 3 := True])
           \<and> free_run tr b \<and> (\<forall>c<b. \<not> free_run tr c)"
  unfolding alloc_blocks_def by (rule find_free_blocks_found [OF scan_inv_start assms])

lemma alloc_blocks_no_run:
  assumes "\<forall>b. \<not> free_run tr b"
  shows "snd (alloc_blocks tr) = tr"
  unfolding alloc_blocks_def by (rule find_free_blocks_none [OF scan_inv_start assms])

section \<open>Properties of the victim selection\<close>

lemma word_not_max_less: "(x :: u64) \<noteq> - 1 \<Longrightarrow> x < - 1"
  by (simp add: word_order.not_eq_extremum)

lemma find_victim_oldest:
  assumes "i \<le> length ht"
      and "(m = - 1 \<and> (\<forall>j<i. \<not> loaded (ht ! j) \<longrightarrow> last_load_time (ht ! j) = - 1))
           \<or> (v < i \<and> \<not> loaded (ht ! v) \<and> last_load_time (ht ! v) = m
               \<and> (\<forall>j<i. \<not> loaded (ht ! j) \<longrightarrow>
                     m < last_load_time (ht ! j) \<or> (m = last_load_time (ht ! j) \<and> v \<le> j)))"
      and "\<exists>j<length ht. \<not> loaded (ht ! j) \<and> last_load_time (ht ! j) \<noteq> - 1"
  shows "oldest_resident ht (find_victim ht i v m)"
  using assms
proof (induction ht i v m rule: find_victim.induct)
  case (1 ht i v m)
  show ?case
  proof (cases "i < length ht")
    case False
    with "1.prems"(1) have i: "i = length ht" by simp
    from "1.prems"(2) show ?thesis
    proof
      assume "m = - 1 \<and> (\<forall>j<i. \<not> loaded (ht ! j) \<longrightarrow> last_load_time (ht ! j) = - 1)"
      with i "1.prems"(3) show ?thesis by auto
    next
      assume "v < i \<and> \<not> loaded (ht ! v) \<and> last_load_time (ht ! v) = m
               \<and> (\<forall>j<i. \<not> loaded (ht ! j) \<longrightarrow>
                     m < last_load_time (ht ! j) \<or> (m = last_load_time (ht ! j) \<and> v \<le> j))"
      with i have "oldest_resident ht v"
        by (auto simp: oldest_resident_def list_all_iff)
      with i show ?thesis by (subst find_victim.simps) simp
    qed
  next
    case lt: True
    then have le: "Suc i \<le> length ht" by simp
    show ?thesis
    proof (cases "\<not> loaded (ht ! i) \<and> last_load_time (ht ! i) < m")
      case True
      let ?t = "last_load_time (ht ! i)"
      have "\<forall>j<Suc i. \<not> loaded (ht ! j) \<longrightarrow>
              ?t < last_load_time (ht ! j) \<or> (?t = last_load_time (ht ! j) \<and> i \<le> j)"
      proof (intro allI impI)
        fix j assume j: "j < Suc i" and res: "\<not> loaded (ht ! j)"
        show "?t < last_load_time (ht ! j) \<or> (?t = last_load_time (ht ! j) \<and> i \<le> j)"
        proof (cases "j = i")
          case True
          then show ?thesis by simp
        next
          case False
          with j have ji: "j < i" by simp
          from "1.prems"(2) have "m \<le> last_load_time (ht ! j)"
          proof
            assume "m = - 1 \<and> (\<forall>j<i. \<not> loaded (ht ! j) \<longrightarrow> last_load_time (ht ! j) = - 1)"
            with ji res show ?thesis by simp
          next
            assume "v < i \<and> \<not> loaded (ht ! v) \<and> last_load_time (ht ! v) = m
               \<and> (\<forall>j<i. \<not> loaded (ht ! j) \<longrightarrow>
                     m < last_load_time (ht ! j) \<or> (m = last_load_time (ht ! j) \<and> v \<le> j))"
            with ji res show ?thesis by auto
          qed
          with True have "?t < last_load_time (ht ! j)" by (auto intro: less_le_trans)
          then show ?thesis by simp
        qed
      qed
      with True have inv: "(?t = - 1 \<and> (\<forall>j<Suc i. \<not> loaded (ht ! j) \<longrightarrow> last_load_time (ht ! j) = - 1))
           \<or> (i < Suc i \<and> \<not> loaded (ht ! i) \<and> last_load_time (ht ! i) = ?t
               \<and> (\<forall>j<Suc i. \<not> loaded (ht ! j) \<longrightarrow>
                     ?t < last_load_time (ht ! j) \<or> (?t = last_load_time (ht ! j) \<and> i \<le> j)))"
        by simp
      from "1.IH"(1) [OF lt True le inv "1.prems"(3)] lt True show ?thesis
        by (subst find_victim.simps) simp
    next
      case False
      have inv: "(m = - 1 \<and> (\<forall>j<Suc i. \<not> loaded (ht ! j) \<longrightarrow> last_load_time (ht ! j) = - 1))
           \<or> (v < Suc i \<and> \<not> loaded (ht ! v) \<and> last_load_time (ht ! v) = m
               \<and> (\<forall>j<Suc i. \<not> loaded (ht ! j) \<longrightarrow>
                     m < last_load_time (ht ! j) \<or> (m = last_load_time (ht ! j) \<and> v \<le> j)))"
        using "1.prems"(2)
      proof
        assume a: "m = - 1 \<and> (\<forall>j<i. \<not> loaded (ht ! j) \<longrightarrow> last_load_time (ht ! j) = - 1)"
        with False have "\<not> loaded (ht ! i) \<longrightarrow> last_load_time (ht ! i) = - 1"
          using word_not_max_less by blast
        with a show ?thesis by (auto simp: less_Suc_eq)
      next
        assume b: "v < i \<and> \<not> loaded (ht ! v) \<and> last_load_time (ht ! v) = m
               \<and> (\<forall>j<i. \<not> loaded (ht ! j) \<longrightarrow>
                     m < last_load_time (ht ! j) \<or> (m = last_load_time (ht ! j) \<and> v \<le> j))"
        with False have "\<not> loaded (ht ! i) \<longrightarrow>
            m < last_load_time (ht ! i) \<or> (m = last_load_time (ht ! i) \<and> v \<le> i)"
          by auto
        with b show ?thesis by (auto simp: less_Suc_eq)
      qed
      from "1.IH"(2) [OF lt False le inv "1.prems"(3)] lt False show ?thesis
        by (subst find_victim.simps) auto
    qed
  qed
qed

lemma resident_times_iff:
  "(j, t) \<in> set (resident_times ht)
     \<longleftrightarrow> j < length ht \<and> \<not> loaded (ht ! j) \<and> t = last_load_time (ht ! j)"
  by (auto simp: resident_times_def)

lemma select_victim_candidate:
  assumes "j < length ht" "\<not> loaded (ht ! j)" "last_load_time (ht ! j) \<noteq> - 1"
  shows "oldest_resident ht (select_victim ht)"
  unfolding select_victim_def
proof (rule find_victim_oldest)
  show "\<exists>j<length ht. \<not> loaded (ht ! j) \<and> last_load_time (ht ! j) \<noteq> - 1"
    using assms by blast
qed simp_all

text \<open>
  Claim C3, as amended. If some resident descriptor has a timestamp below \<open>2^64 - 1\<close>, the
  second loop selects, among the descriptors marked resident, the one with the smallest
  timestamp, and the first of those in table order. In particular, for every table whose
  resident descriptors are those at the indices 0, 1, 2, 3 with the timestamps 10, 30, 5, 20,
  it selects index 2.
\<close>

theorem select_victim_oldest_resident:
  "((\<exists>j<length ht. \<not> loaded (ht ! j) \<and> last_load_time (ht ! j) \<noteq> - 1)
      \<longrightarrow> oldest_resident ht (select_victim ht))
   \<and> (resident_times ht = [(0, 10), (1, 30), (2, 5), (3, 20)] \<longrightarrow> select_victim ht = 2)"
proof (intro conjI impI)
  assume "\<exists>j<length ht. \<not> loaded (ht ! j) \<and> last_load_time (ht ! j) \<noteq> - 1"
  then show "oldest_resident ht (select_victim ht)"
    using select_victim_candidate by blast
next
  let ?r = "select_victim ht"
  assume rt: "resident_times ht = [(0, 10), (1, 30), (2, 5), (3, 20)]"
  then have "(2, 5) \<in> set (resident_times ht)" by simp
  then have two: "2 < length ht" "\<not> loaded (ht ! 2)" "last_load_time (ht ! 2) = 5"
    by (simp_all add: resident_times_iff)
  then have "last_load_time (ht ! 2) \<noteq> - 1" by simp
  with two(1,2) have old: "oldest_resident ht ?r" by (rule select_victim_candidate)
  then have "(?r, last_load_time (ht ! ?r)) \<in> set (resident_times ht)"
    by (simp add: resident_times_iff oldest_resident_def)
  with rt have cases: "(?r = 0 \<and> last_load_time (ht ! ?r) = 10) \<or> (?r = 1 \<and> last_load_time (ht ! ?r) = 30)
      \<or> (?r = 2 \<and> last_load_time (ht ! ?r) = 5) \<or> (?r = 3 \<and> last_load_time (ht ! ?r) = 20)"
    by auto
  from old two have "last_load_time (ht ! ?r) < 5 \<or> (last_load_time (ht ! ?r) = 5 \<and> ?r \<le> 2)"
    by (auto simp: oldest_resident_def list_all_iff)
  with cases show "?r = 2" by auto
qed

lemma ht_example_times: "resident_times ht_example = [(0, 10), (1, 30), (2, 5), (3, 20)]"
  by (simp add: resident_times_def ht_example_def upt_rec)

theorem select_victim_oldest_resident_witness:
  "resident_times ht_example = [(0, 10), (1, 30), (2, 5), (3, 20)]
   \<and> select_victim ht_example = 2 \<and> oldest_resident ht_example 2"
proof -
  have ex: "\<exists>j<length ht_example. \<not> loaded (ht_example ! j) \<and> last_load_time (ht_example ! j) \<noteq> - 1"
    by (rule exI [of _ 0]) (simp add: ht_example_def)
  from select_victim_oldest_resident [of ht_example] ht_example_times ex
  have "oldest_resident ht_example (select_victim ht_example) \<and> select_victim ht_example = 2"
    by blast
  then have b: "oldest_resident ht_example (select_victim ht_example)"
    and a: "select_victim ht_example = 2" by blast+
  from b have "oldest_resident ht_example 2" by (simp only: a)
  with a ht_example_times show ?thesis by (intro conjI)
qed

text \<open>
  Claim C3 as stated fails where the only resident descriptor has the timestamp \<open>2^64 - 1\<close>:
  the comparison \<open>last_load_time < minTime\<close> is strict and \<open>minTime\<close> starts from that value,
  so the loop keeps its initial index 0, here an evicted descriptor, while the oldest resident
  one is at index 1.
\<close>

theorem select_victim_counterexample:
  "select_victim ht_stale = 0 \<and> loaded (ht_stale ! 0)
   \<and> oldest_resident ht_stale 1 \<and> \<not> oldest_resident ht_stale 0"
  by code_simp
section \<open>Properties of eviction and page-in\<close>

subsection \<open>A page written to four blocks and read back\<close>

lemma upt_4: "[0..<4] = [0, 1, 2, 3]"
  by (simp add: upt_rec)

lemma page_chunks:
  assumes "length ptr = 4096"
  shows "take 1024 ptr @ take 1024 (drop 1024 ptr) @ take 1024 (drop 2048 ptr)
           @ take 1024 (drop 3072 ptr) = ptr"
proof -
  have a: "take 1024 (drop 3072 ptr) = drop 3072 ptr" using assms by simp
  have b: "take 1024 (drop 2048 ptr) @ drop 3072 ptr = drop 2048 ptr"
    using append_take_drop_id [of 1024 "drop 2048 ptr"] by simp
  have c: "take 1024 (drop 1024 ptr) @ drop 2048 ptr = drop 1024 ptr"
    using append_take_drop_id [of 1024 "drop 1024 ptr"] by simp
  have d: "take 1024 ptr @ drop 1024 ptr = ptr" by simp
  show ?thesis by (simp only: a b c d)
qed

lemma write_blocks_at:
  "write_blocks d start ptr (start + 0) = take 1024 ptr @ drop 1024 (d (start + 0))"
  "write_blocks d start ptr (start + 1) = take 1024 (drop 1024 ptr) @ drop 1024 (d (start + 1))"
  "write_blocks d start ptr (start + 2) = take 1024 (drop 2048 ptr) @ drop 1024 (d (start + 2))"
  "write_blocks d start ptr (start + 3) = take 1024 (drop 3072 ptr) @ drop 1024 (d (start + 3))"
  by (simp_all add: write_blocks_def upt_4 memmove_def)

lemma read_blocks_chunks:
  assumes "length c0 = 1024" "length c1 = 1024" "length c2 = 1024" "length c3 = 1024"
      and "d (start + 0) = c0 @ r0" "d (start + 1) = c1 @ r1"
      and "d (start + 2) = c2 @ r2" "d (start + 3) = c3 @ r3"
  shows "read_blocks d start buf = c0 @ c1 @ c2 @ c3 @ drop 4096 buf"
  using assms by (simp add: read_blocks_def upt_4 memmove_def)

lemma read_write_blocks:
  assumes "length ptr = 4096"
  shows "read_blocks (write_blocks d start ptr) start buf = ptr @ drop 4096 buf"
proof -
  have "read_blocks (write_blocks d start ptr) start buf
          = take 1024 ptr @ take 1024 (drop 1024 ptr) @ take 1024 (drop 2048 ptr)
              @ take 1024 (drop 3072 ptr) @ drop 4096 buf"
    by (rule read_blocks_chunks [OF _ _ _ _ write_blocks_at]) (simp_all add: assms)
  also have "\<dots> = (take 1024 ptr @ take 1024 (drop 1024 ptr) @ take 1024 (drop 2048 ptr)
              @ take 1024 (drop 3072 ptr)) @ drop 4096 buf" by simp
  also have "\<dots> = ptr @ drop 4096 buf" by (simp only: page_chunks [OF assms])
  finally show ?thesis .
qed

subsection \<open>Eviction followed by page-in\<close>

lemma find_swapped_first:
  "v < length hs \<Longrightarrow> loaded (hs ! v) \<Longrightarrow> addr (hs ! v) = a \<Longrightarrow>
   \<forall>j<v. \<not> (loaded (hs ! j) \<and> addr (hs ! j) = a) \<Longrightarrow> find_swapped hs a i = Some (i + v)"
proof (induction hs arbitrary: v i)
  case Nil
  then show ?case by simp
next
  case (Cons h hs)
  show ?case
  proof (cases v)
    case 0
    with Cons.prems show ?thesis by simp
  next
    case (Suc w)
    with Cons.prems have h: "\<not> (loaded h \<and> addr h = a)" by auto
    from Suc Cons.prems have "find_swapped hs a (Suc i) = Some (Suc i + w)"
      by (intro Cons.IH) auto
    with h Suc show ?thesis by simp
  qed
qed

lemma release_blocks:
  assumes "free_run tr b"
  shows "(tr[b := True, b + 1 := True, b + 2 := True, b + 3 := True])
           [b := False, b + 1 := False, b + 2 := False, b + 3 := False] = tr"
  using assms by (auto simp: free_run_def list_eq_iff_nth_eq nth_list_update)

lemma retrieve_found:
  assumes "find_swapped (heap_tracker p) a 0 = Some i"
      and "sb = startblock (heap_tracker p ! i)"
      and "sb + 3 < length (psa_tracker k)"
  shows "retrieve_page_from_disk env (k, p) a
           = Inr (k\<lparr>psa_tracker :=
                      (psa_tracker k)[sb := False, sb + 1 := False, sb + 2 := False, sb + 3 := False]\<rparr>,
                  p\<lparr>pagetable := copyout (pagetable p) a
                      (read_blocks (disk k) (PSASTART env + sb) (kpage env))\<rparr>)"
  using assms by (simp add: retrieve_page_from_disk_def Let_def)

text \<open>
  Claim C5. Let the Eviction Engine evict the resident page it selects, while the swap area
  has a run of four free blocks, and let the page be mapped again and paged in at once. The
  eviction unmaps the page, marks its descriptor and takes an extent; after the page-in the
  page holds the bytes it held before the eviction, and the bitmap is what it was before the
  eviction, so the extent is free again. The descriptor table is taken to hold no evicted
  descriptor of the same address before the victim's.
\<close>

theorem evict_then_retrieve_roundtrip:
  assumes "v = select_victim (heap_tracker p)"
      and "v < length (heap_tracker p)"
      and "va = addr (heap_tracker p ! v)"
      and "pagetable p va = Some pg"
      and "length (bytes pg) = PGSIZE"
      and "\<forall>j<v. \<not> (loaded (heap_tracker p ! j) \<and> addr (heap_tracker p ! j) = va)"
      and "free_run (psa_tracker k) r"
      and "length (kpage env) = PGSIZE"
      and "evict_page_to_disk env (k, p) = (k1, p1)"
  shows "pagetable p1 va = None \<and> loaded (heap_tracker p1 ! v)
         \<and> psa_tracker k1 \<noteq> psa_tracker k
         \<and> (\<exists>k2 p2.
               retrieve_page_from_disk env
                 (k1, p1\<lparr>pagetable := uvmalloc (pagetable p1) va PTE_W\<rparr>) va = Inr (k2, p2)
               \<and> map_option bytes (pagetable p2 va) = Some (bytes pg)
               \<and> psa_tracker k2 = psa_tracker k)"
proof -
  let ?tr = "psa_tracker k"
  let ?ht = "heap_tracker p"
  from alloc_blocks_first_run [OF assms(7)] obtain b where
    alloc: "alloc_blocks ?tr = (b, ?tr[b := True, b + 1 := True, b + 2 := True, b + 3 := True])"
    and run: "free_run ?tr b" by blast
  let ?tr1 = "?tr[b := True, b + 1 := True, b + 2 := True, b + 3 := True]"
  let ?ptr = "copyin (pagetable p) (kpage env) va"
  have ptr: "?ptr = bytes pg"
    using assms(4,5,8) by (simp add: copyin_def memmove_def)
  let ?ht1 = "?ht[v := (?ht ! v)\<lparr>startblock := b, loaded := True\<rparr>]"
  from assms(9) alloc assms(1,3)
  have k1: "k1 = k\<lparr>psa_tracker := ?tr1, disk := write_blocks (disk k) (PSASTART env + b) ?ptr\<rparr>"
    and p1: "p1 = p\<lparr>heap_tracker := ?ht1, pagetable := uvmunmap_page (pagetable p) va\<rparr>"
    by (simp_all add: evict_page_to_disk_def Let_def)
  have unmapped: "pagetable p1 va = None" by (simp add: p1 uvmunmap_page_def)
  have marked: "loaded (heap_tracker p1 ! v)" using assms(2) by (simp add: p1)
  from run have "\<not> ?tr ! b" "b < length ?tr" by (simp_all add: free_run_def)
  then have "?tr1 ! b \<noteq> ?tr ! b" by (simp add: nth_list_update)
  then have ne: "?tr1 \<noteq> ?tr" by metis
  have tr1: "psa_tracker k1 = ?tr1" by (simp add: k1)
  have changed: "psa_tracker k1 \<noteq> psa_tracker k" unfolding tr1 by (rule ne)
  have "find_swapped ?ht1 va 0 = Some (0 + v)"
  proof (rule find_swapped_first)
    show "v < length ?ht1" using assms(2) by simp
    show "loaded (?ht1 ! v)" using assms(2) by simp
    show "addr (?ht1 ! v) = va" using assms(2,3) by simp
    show "\<forall>j<v. \<not> (loaded (?ht1 ! j) \<and> addr (?ht1 ! j) = va)"
      using assms(6) by simp
  qed
  then have found: "find_swapped ?ht1 va 0 = Some v" by simp
  have sb: "startblock (?ht1 ! v) = b" using assms(2) by simp
  from run have inrange: "b + 3 < length ?tr1" by (simp add: free_run_def)
  have rd: "read_blocks (write_blocks (disk k) (PSASTART env + b) ?ptr) (PSASTART env + b) (kpage env)
              = bytes pg"
    using assms(5,8) by (simp add: ptr read_write_blocks PGSIZE_def)
  let ?p1' = "p1\<lparr>pagetable := uvmalloc (pagetable p1) va PTE_W\<rparr>"
  let ?trel = "(psa_tracker k1)[b := False, b + 1 := False, b + 2 := False, b + 3 := False]"
  let ?k2 = "k1\<lparr>psa_tracker := ?trel\<rparr>"
  let ?p2 = "?p1'\<lparr>pagetable := copyout (pagetable ?p1') va
               (read_blocks (disk k1) (PSASTART env + b) (kpage env))\<rparr>"
  have found': "find_swapped (heap_tracker ?p1') va 0 = Some v" using found by (simp add: p1)
  have sb': "b = startblock (heap_tracker ?p1' ! v)" using sb by (simp add: p1)
  have inrange': "b + 3 < length (psa_tracker k1)" using inrange by (simp only: tr1)
  have ret: "retrieve_page_from_disk env (k1, ?p1') va = Inr (?k2, ?p2)"
    by (rule retrieve_found [OF found' sb' inrange'])
  have "disk k1 = write_blocks (disk k) (PSASTART env + b) ?ptr" by (simp add: k1)
  with rd have rd': "read_blocks (disk k1) (PSASTART env + b) (kpage env) = bytes pg" by simp
  have content: "map_option bytes (pagetable ?p2 va) = Some (bytes pg)"
    using assms(5) by (simp add: rd' copyout_def uvmalloc_def memmove_def)
  have "psa_tracker ?k2 = ?trel" by simp
  also have "\<dots> = ?tr" unfolding tr1 by (rule release_blocks [OF run])
  finally have released: "psa_tracker ?k2 = psa_tracker k" .
  from ret content released unmapped marked changed show ?thesis by blast
qed

subsection \<open>The concrete process: its eviction evaluated\<close>

lemma alloc0: "alloc_blocks (psa_tracker k0) = (8, replicate 12 True @ replicate 4 False)"
  unfolding k0_def kernel.simps by code_simp

lemma victim0: "select_victim ht_example = 2"
  by code_simp

lemma ht_example_nth:
  "ht_example ! 2 = \<lparr>addr = 0x6000, last_load_time = 5, startblock = 0, loaded = False\<rparr>"
  "ht_example ! 4 = \<lparr>addr = 0x8000, last_load_time = 1, startblock = 0, loaded = True\<rparr>"
  "length ht_example = 6"
  by (simp_all add: ht_example_def)

lemma find_addr0: "find_addr ht_example 0x8000 0 = Some 4" "find_addr ht_example 0x1000 0 = None"
  by (simp_all add: ht_example_def)

lemma evict0:
  "evict_page_to_disk env0 (k0, p0)
     = (k0\<lparr>psa_tracker := replicate 12 True @ replicate 4 False,
            disk := write_blocks (disk k0) 41 (replicate 4096 0x66)\<rparr>,
        p0\<lparr>heap_tracker := ht_example
              [2 := \<lparr>addr = 0x6000, last_load_time = 5, startblock = 8, loaded = True\<rparr>],
            pagetable := uvmunmap_page pages0 0x6000\<rparr>)"
proof -
  have ci: "copyin pages0 (replicate 4096 5) 0x6000 = replicate 4096 0x66"
    by (simp add: copyin_def pages0_def memmove_def PGSIZE_def)
  show ?thesis
    by (simp add: evict_page_to_disk_def alloc0 Let_def p0_def env0_def victim0 ht_example_nth ci)
qed

subsection \<open>The swap area exhausted\<close>

lemma alloc_full: "alloc_blocks (replicate 40 True) = (0, replicate 40 True)"
  by code_simp

lemma alloc_seq_40:
  "alloc_blocks_seq 10 (replicate 40 False)
     = ([0, 4, 8, 12, 16, 20, 24, 28, 32, 36], replicate 40 True)"
  by code_simp

lemma evict_exhausted:
  "evict_page_to_disk env0 (k0\<lparr>psa_tracker := replicate 40 True\<rparr>, p0)
     = (k0\<lparr>psa_tracker := replicate 40 True,
            disk := write_blocks (disk k0) (33 + 0) (replicate 4096 0x66)\<rparr>,
        p0\<lparr>heap_tracker := ht_example
              [2 := \<lparr>addr = 0x6000, last_load_time = 5, startblock = 0, loaded = True\<rparr>],
            pagetable := uvmunmap_page pages0 0x6000\<rparr>)"
proof -
  have ci: "copyin pages0 (replicate 4096 5) 0x6000 = replicate 4096 0x66"
    by (simp add: copyin_def pages0_def memmove_def PGSIZE_def)
  show ?thesis
    by (simp add: evict_page_to_disk_def alloc_full Let_def p0_def env0_def victim0
        ht_example_nth ci)
qed

text \<open>
  Claim C2. On a bitmap of 40 free blocks, ten scans in a row return the block numbers
  0, 4, ..., 36, each the start of the first run of four free blocks
  (\<open>alloc_blocks_first_run\<close>), and leave every block used, as the claim says. The eleventh
  scan does not fail, against the claim: it finds no run, leaves the bitmap as it is and ends
  with \<open>blockno = 0\<close>, the value the variable started from, and \<open>evict_page_to_disk\<close> goes
  on with it. In the concrete process, whose evicted page at index 4 lies in the extent at
  block 0, the eviction then records block 0 for the new victim as well and writes the
  victim's bytes over block \<open>PSASTART + 0\<close>.
\<close>

theorem swap_exhaustion_reuses_blocks:
  "alloc_blocks_seq 10 (replicate 40 False)
     = ([0, 4, 8, 12, 16, 20, 24, 28, 32, 36], replicate 40 True)
   \<and> alloc_blocks (replicate 40 True) = (0, replicate 40 True)
   \<and> (\<exists>k' p'. evict_page_to_disk env0 (k0\<lparr>psa_tracker := replicate 40 True\<rparr>, p0) = (k', p')
         \<and> psa_tracker k' = replicate 40 True
         \<and> loaded (heap_tracker p0 ! 4) \<and> startblock (heap_tracker p0 ! 4) = 0
         \<and> startblock (heap_tracker p' ! 2) = 0
         \<and> disk k0 (PSASTART env0 + 0) = replicate 1024 0
         \<and> disk k' (PSASTART env0 + 0) = replicate 1024 0x66)"
proof -
  have blk: "write_blocks (disk k0) (33 + 0) (replicate 4096 0x66) (33 + 0) = replicate 1024 0x66"
    using write_blocks_at(1) [of "disk k0" 33 "replicate 4096 0x66"] by (simp add: k0_def)
  have "\<exists>k' p'. evict_page_to_disk env0 (k0\<lparr>psa_tracker := replicate 40 True\<rparr>, p0) = (k', p')
         \<and> psa_tracker k' = replicate 40 True
         \<and> loaded (heap_tracker p0 ! 4) \<and> startblock (heap_tracker p0 ! 4) = 0
         \<and> startblock (heap_tracker p' ! 2) = 0
         \<and> disk k0 (PSASTART env0 + 0) = replicate 1024 0
         \<and> disk k' (PSASTART env0 + 0) = replicate 1024 0x66"
    unfolding evict_exhausted
    using blk by (simp add: p0_def ht_example_nth env0_def k0_def)
  with alloc_seq_40 alloc_full show ?thesis by (intro conjI)
qed

subsection \<open>The round trip on the concrete process\<close>

theorem evict_then_retrieve_roundtrip_witness:
  "\<exists>k1 p1 k2 p2. evict_page_to_disk env0 (k0, p0) = (k1, p1)
     \<and> map_option bytes (pagetable p0 0x6000) = Some (replicate 4096 0x66)
     \<and> pagetable p1 0x6000 = None
     \<and> retrieve_page_from_disk env0
          (k1, p1\<lparr>pagetable := uvmalloc (pagetable p1) 0x6000 PTE_W\<rparr>) 0x6000 = Inr (k2, p2)
     \<and> map_option bytes (pagetable p2 0x6000) = Some (replicate 4096 0x66)
     \<and> psa_tracker k2 = psa_tracker k0"
proof -
  obtain k1 p1 where ev: "evict_page_to_disk env0 (k0, p0) = (k1, p1)"
    by (cases "evict_page_to_disk env0 (k0, p0)")
  have h1: "2 = select_victim (heap_tracker p0)" by (simp add: p0_def victim0)
  have h2: "2 < length (heap_tracker p0)" by (simp add: p0_def ht_example_nth)
  have h3: "0x6000 = addr (heap_tracker p0 ! 2)" by (simp add: p0_def ht_example_nth)
  have h4: "pagetable p0 0x6000 = Some \<lparr>perm = PTE_W, bytes = replicate 4096 0x66\<rparr>"
    by (simp add: p0_def pages0_def)
  have h5: "length (bytes \<lparr>perm = PTE_W, bytes = replicate 4096 0x66\<rparr>) = PGSIZE"
    by (simp add: PGSIZE_def)
  have h6: "\<forall>j<2. \<not> (loaded (heap_tracker p0 ! j) \<and> addr (heap_tracker p0 ! j) = 0x6000)"
    by (simp add: p0_def ht_example_def less_Suc_eq numeral_2_eq_2)
  have h7: "free_run (psa_tracker k0) 8"
    by (simp add: free_run_def k0_def nth_append)
  have h8: "length (kpage env0) = PGSIZE" by (simp add: env0_def PGSIZE_def)
  from evict_then_retrieve_roundtrip [OF h1 h2 h3 h4 h5 h6 h7 h8 ev] h4 ev
  show ?thesis by auto
qed

section \<open>Properties of the fault handler\<close>

subsection \<open>The name test\<close>

lemma chr0_Cons: "chr0 (c # s) = of_char c"
  by (simp add: chr0_def)

lemma chr0_Nil: "chr0 [] = 0"
  by (simp add: chr0_def)

lemma chr0_zero_iff: "CHR 0x00 \<notin> set s \<Longrightarrow> chr0 s = 0 \<longleftrightarrow> s = []"
proof (cases s)
  case Nil
  then show ?thesis by (simp add: chr0_Nil)
next
  case (Cons c cs)
  assume "CHR 0x00 \<notin> set s"
  with Cons have "c \<noteq> CHR 0x00" by auto
  then have "(of_char c :: nat) \<noteq> of_char (CHR 0x00)" by (simp only: of_char_eq_iff not_False_eq_True)
  with Cons show ?thesis by (simp add: chr0_Cons)
qed

lemma strncmp_eq_0_iff:
  "length p < n \<Longrightarrow> CHR 0x00 \<notin> set p \<Longrightarrow> CHR 0x00 \<notin> set q \<Longrightarrow>
   strncmp p q n = 0 \<longleftrightarrow> p = q"
proof (induction n arbitrary: p q)
  case 0
  then show ?case by simp
next
  case (Suc n)
  show ?case
  proof (cases p)
    case Nil
    with Suc.prems(3) show ?thesis
      using chr0_zero_iff [of q] by (auto simp: chr0_Nil)
  next
    case (Cons c cs)
    with Suc.prems(2) have nz: "chr0 p \<noteq> 0" using chr0_zero_iff [of p] by simp
    show ?thesis
    proof (cases q)
      case Nil
      with nz Cons show ?thesis by (simp add: chr0_Nil)
    next
      case qc: (Cons d ds)
      show ?thesis
      proof (cases "c = d")
        case True
        from Suc.prems Cons qc have "strncmp cs ds n = 0 \<longleftrightarrow> cs = ds"
          by (intro Suc.IH) auto
        with True Cons qc nz show ?thesis by (simp add: chr0_Cons)
      next
        case False
        then have "(of_char c :: nat) \<noteq> of_char d" by (simp only: of_char_eq_iff not_False_eq_True)
        with False Cons qc show ?thesis by (simp add: chr0_Cons)
      qed
    qed
  qed
qed

subsection \<open>The heap path at the ceiling\<close>

lemma evict_resident:
  "evict_page_to_disk env (k, p) = (k', p') \<Longrightarrow> resident_heap_pages p' = resident_heap_pages p"
  by (auto simp: evict_page_to_disk_def Let_def split: prod.splits)

text \<open>
  Claim C4, as amended. On the heap path, with the resident count at \<open>MAXRESHEAP\<close>, the
  handler of a process whose name is not \<open>test5-odheap-bi\<close> runs \<open>evict_page_to_disk\<close> and
  sets the count to \<open>MAXRESHEAP - 1\<close> before it maps the page; for the process of that name
  it maps the page on the state as it is, with no eviction and no decrement. The name is a C
  string in \<open>char name[16]\<close>: fewer than 16 characters, none of them NUL.
\<close>

theorem page_fault_handler_evicts_at_ceiling:
  assumes "\<not> (scause = 15 \<and> cow_enabled p)"
      and "find_addr (heap_tracker p) (push_bit 12 (drop_bit 12 stval)) 0 = Some i"
      and "resident_heap_pages p = MAXRESHEAP env"
      and "length (name p) < 16"
      and "CHR 0x00 \<notin> set (name p)"
  shows "page_fault_handler env scause stval (k, p)
           = heap_map_page env (push_bit 12 (drop_bit 12 stval)) (loaded (heap_tracker p ! i))
               (if name p = ''test5-odheap-bi'' then (k, p)
                else (case evict_page_to_disk env (k, p) of
                        (k', p') \<Rightarrow> (k', p'\<lparr>resident_heap_pages := MAXRESHEAP env - 1\<rparr>)))"
proof -
  have cmp: "strncmp (name p) ''test5-odheap-bi'' 16 = 0 \<longleftrightarrow> name p = ''test5-odheap-bi''"
    by (rule strncmp_eq_0_iff [OF assms(4,5)]) simp
  obtain k' p' where ev: "evict_page_to_disk env (k, p) = (k', p')"
    by (cases "evict_page_to_disk env (k, p)")
  from evict_resident [OF ev] assms(3) have "resident_heap_pages p' = MAXRESHEAP env" by simp
  with ev cmp assms(3) have "heap_evict_if_full env (k, p)
      = (if name p = ''test5-odheap-bi'' then (k, p)
         else (case evict_page_to_disk env (k, p) of
                 (k', p') \<Rightarrow> (k', p'\<lparr>resident_heap_pages := MAXRESHEAP env - 1\<rparr>)))"
    by (simp add: heap_evict_if_full_def)
  moreover from assms(1) have "(scause = 15 \<and> cow_enabled p) = False" by simp
  ultimately show ?thesis
    using assms(2) by (simp only: page_fault_handler_def Let_def prod.case if_False option.case)
qed

lemma page_base0: "push_bit 12 (drop_bit 12 (0x8abc :: u64)) = 0x8000"
  "push_bit 12 (drop_bit 12 (0x1234 :: u64)) = 0x1000"
  by simp_all

lemma find_swapped0:
  "find_swapped (ht_example[4 := \<lparr>addr = 0x8000, last_load_time = 40, startblock = 0, loaded = True\<rparr>])
     0x8000 0 = Some 4"
  "find_swapped (ht_example[2 := \<lparr>addr = 0x6000, last_load_time = 5, startblock = 8, loaded = True\<rparr>,
                            4 := \<lparr>addr = 0x8000, last_load_time = 40, startblock = 0, loaded = True\<rparr>])
     0x8000 0 = Some 4"
  by (simp_all add: ht_example_def)

theorem page_fault_handler_evicts_at_ceiling_witness:
  "\<exists>k' p'. page_fault_handler env0 13 0x8abc (k0, p0) = Inr (k', p')
     \<and> resident_heap_pages p' = 4 \<and> loaded (heap_tracker p' ! 2)
     \<and> pagetable p' 0x6000 = None \<and> pagetable p' 0x8000 \<noteq> None"
proof -
  have h1: "\<not> ((13 :: u64) = 15 \<and> cow_enabled p0)" by simp
  have h2: "find_addr (heap_tracker p0) (push_bit 12 (drop_bit 12 0x8abc)) 0 = Some 4"
    by (simp add: p0_def find_addr0)
  have h3: "resident_heap_pages p0 = MAXRESHEAP env0" by (simp add: p0_def env0_def)
  have h4: "length (name p0) < 16" by (simp add: p0_def)
  have h5: "CHR 0x00 \<notin> set (name p0)" by (simp add: p0_def)
  have nm: "name p0 \<noteq> ''test5-odheap-bi''" by (simp add: p0_def)
  have fa: "find_addr (ht_example[2 := \<lparr>addr = 0x6000, last_load_time = 5, startblock = 8, loaded = True\<rparr>])
     0x8000 0 = Some 4" by (simp add: ht_example_def)
  have "page_fault_handler env0 13 0x8abc (k0, p0)
          = heap_map_page env0 0x8000 True
              (case evict_page_to_disk env0 (k0, p0) of
                 (k', p') \<Rightarrow> (k', p'\<lparr>resident_heap_pages := MAXRESHEAP env0 - 1\<rparr>))"
    using page_fault_handler_evicts_at_ceiling [OF h1 h2 h3 h4 h5, of k0] nm
    by (simp add: page_base0 p0_def ht_example_nth)
  also have "\<dots> = heap_map_page env0 0x8000 True
     (k0\<lparr>psa_tracker := replicate 12 True @ replicate 4 False,
          disk := write_blocks (disk k0) 41 (replicate 4096 0x66)\<rparr>,
      p0\<lparr>heap_tracker := ht_example
             [2 := \<lparr>addr = 0x6000, last_load_time = 5, startblock = 8, loaded = True\<rparr>],
          pagetable := uvmunmap_page pages0 0x6000,
          resident_heap_pages := 3\<rparr>)"
    by (simp only: evict0 prod.case) (simp add: env0_def)
  finally have eq: "page_fault_handler env0 13 0x8abc (k0, p0) = heap_map_page env0 0x8000 True
     (k0\<lparr>psa_tracker := replicate 12 True @ replicate 4 False,
          disk := write_blocks (disk k0) 41 (replicate 4096 0x66)\<rparr>,
      p0\<lparr>heap_tracker := ht_example
             [2 := \<lparr>addr = 0x6000, last_load_time = 5, startblock = 8, loaded = True\<rparr>],
          pagetable := uvmunmap_page pages0 0x6000,
          resident_heap_pages := 3\<rparr>)" .
  show ?thesis
    unfolding eq
    by (simp add: heap_map_page_def Let_def fa find_swapped0 retrieve_page_from_disk_def
        ht_example_nth env0_def k0_def p0_def copyout_def uvmalloc_def uvmunmap_page_def)
qed

lemma strncmp_test5: "strncmp ''test5-odheap-bi'' ''test5-odheap-bi'' 16 = 0"
  by code_simp

text \<open>
  Claim C4 as stated, for every process whatever its name, fails for the process named
  \<open>test5-odheap-bi\<close>: at the ceiling of 4 resident pages its fault maps a fifth page, and
  the page the engine would have chosen stays resident.
\<close>

theorem page_fault_handler_name_counterexample:
  "\<exists>k' p'. page_fault_handler env0 13 0x8abc (k0, p0\<lparr>name := ''test5-odheap-bi''\<rparr>) = Inr (k', p')
     \<and> resident_heap_pages p0 = MAXRESHEAP env0
     \<and> resident_heap_pages p' = 5 \<and> \<not> loaded (heap_tracker p' ! 2)
     \<and> pagetable p' 0x6000 = pagetable p0 0x6000 \<and> pagetable p' 0x6000 \<noteq> None"
  by (simp add: page_fault_handler_def heap_evict_if_full_def strncmp_test5 page_base0
      heap_map_page_def Let_def find_addr0 find_swapped0 retrieve_page_from_disk_def
      ht_example_nth env0_def k0_def p0_def copyout_def uvmalloc_def pages0_def)

subsection \<open>The program-image path\<close>

lemma load_segments_none:
  "\<forall>h\<in>set hs. \<not> (vaddr h \<le> fa \<and> fa < vaddr h + memsz h) \<Longrightarrow> load_segments pt fa ip hs = Inr pt"
  by (induction hs) auto

lemma load_segments_append:
  "\<forall>h\<in>set pre. \<not> (vaddr h \<le> fa \<and> fa < vaddr h + memsz h) \<Longrightarrow>
   load_segments pt fa ip (pre @ hs) = load_segments pt fa ip hs"
  by (induction pre) auto

text \<open>
  Claim C9. The claim says that only the faulting page is loaded and that no other page is
  written. What the handler does, when exactly one segment holds the faulting page: it maps
  that one page, zero-filled, with the segment's permissions, and then calls \<open>loadseg\<close> with
  the segment's own \<open>vaddr\<close>, \<open>off\<close> and \<open>filesz\<close>, so the load runs over every page of the
  segment's file range from the segment's start on, whichever page faulted. The witness is a
  segment of two pages whose first page is resident and modified: the fault on the second
  page overwrites the first with the bytes of the file.
\<close>

theorem page_fault_handler_loads_segment:
  assumes "\<not> (scause = 15 \<and> cow_enabled p)"
      and "find_addr (heap_tracker p) (push_bit 12 (drop_bit 12 stval)) 0 = None"
      and "namei env (name p) = Some ip"
      and "phdrs ip = pre @ ph # post"
      and "vaddr ph \<le> push_bit 12 (drop_bit 12 stval)"
      and "push_bit 12 (drop_bit 12 stval) < vaddr ph + memsz ph"
      and "\<forall>h\<in>set pre \<union> set post.
             \<not> (vaddr h \<le> push_bit 12 (drop_bit 12 stval)
                \<and> push_bit 12 (drop_bit 12 stval) < vaddr h + memsz h)"
  shows "page_fault_handler env scause stval (k, p)
           = (case loadseg (uvmalloc (pagetable p) (push_bit 12 (drop_bit 12 stval))
                              (flags2perm (flags ph)))
                     (vaddr ph) (contents ip)
                     (unat (ucast (off ph) :: 32 word)) (unat (ucast (filesz ph) :: 32 word)) of
                Inl f \<Rightarrow> Inl f
              | Inr pt' \<Rightarrow> Inr (k, p\<lparr>pagetable := pt'\<rparr>))"
proof -
  let ?fa = "push_bit 12 (drop_bit 12 stval)"
  let ?ld = "loadseg (uvmalloc (pagetable p) ?fa (flags2perm (flags ph))) (vaddr ph) (contents ip)
               (unat (ucast (off ph) :: 32 word)) (unat (ucast (filesz ph) :: 32 word))"
  from assms(7) have pre: "\<forall>h\<in>set pre. \<not> (vaddr h \<le> ?fa \<and> ?fa < vaddr h + memsz h)"
    and post: "\<forall>h\<in>set post. \<not> (vaddr h \<le> ?fa \<and> ?fa < vaddr h + memsz h)"
    by auto
  have "load_segments (pagetable p) ?fa ip (phdrs ip)
          = load_segments (pagetable p) ?fa ip (ph # post)"
    unfolding assms(4) by (rule load_segments_append [OF pre])
  also have "\<dots> = (case ?ld of Inl f \<Rightarrow> Inl f | Inr pt' \<Rightarrow> load_segments pt' ?fa ip post)"
    using assms(5,6) by simp
  also have "\<dots> = (case ?ld of Inl f \<Rightarrow> Inl f | Inr pt' \<Rightarrow> Inr pt')"
    by (simp add: load_segments_none [OF post] split: sum.splits)
  finally have segs: "load_segments (pagetable p) ?fa ip (phdrs ip)
      = (case ?ld of Inl f \<Rightarrow> Inl f | Inr pt' \<Rightarrow> Inr pt')" .
  from assms(1) have nocow: "(scause = 15 \<and> cow_enabled p) = False" by simp
  show ?thesis
    by (simp only: page_fault_handler_def Let_def prod.case nocow if_False assms(2,3) option.case segs)
      (simp split: sum.splits)
qed

lemma page_masks: "(0 :: u64) AND NOT 4095 = 0" "(4096 :: u64) AND NOT 4095 = 4096"
  by simp_all

lemma loadseg0:
  "loadseg (uvmalloc pages0 0x1000 PTE_W) 0 (contents prog_image) 4096 8192
     = Inr ((uvmalloc pages0 0x1000 PTE_W)
              (0 \<mapsto> \<lparr>perm = PTE_W, bytes = replicate 4096 0xAA\<rparr>,
               0x1000 \<mapsto> \<lparr>perm = PTE_W, bytes = replicate 4096 0xBB\<rparr>))"
  unfolding loadseg_def
  apply (subst loadseg_from.simps)
  apply (simp add: page_masks uvmalloc_def pages0_def prog_image_def PGSIZE_def memmove_def Let_def)
  apply (subst loadseg_from.simps)
  apply (simp add: page_masks PGSIZE_def memmove_def Let_def)
  apply (subst loadseg_from.simps)
  apply simp
  done

theorem page_fault_handler_loads_segment_witness:
  "\<exists>k' p'. page_fault_handler env0 13 0x1234 (k0, p0) = Inr (k', p')
     \<and> map_option bytes (pagetable p0 0) = Some (replicate 4096 0x11)
     \<and> map_option bytes (pagetable p' 0) = Some (replicate 4096 0xAA)
     \<and> map_option bytes (pagetable p' 0x1000) = Some (replicate 4096 0xBB)"
proof -
  let ?ph = "\<lparr>vaddr = 0, memsz = 0x2000, filesz = 0x2000, off = 0x1000, flags = 6\<rparr> :: proghdr"
  have h1: "\<not> ((13 :: u64) = 15 \<and> cow_enabled p0)" by simp
  have h2: "find_addr (heap_tracker p0) (push_bit 12 (drop_bit 12 0x1234)) 0 = None"
    by (simp add: p0_def find_addr0)
  have h3: "namei env0 (name p0) = Some prog_image" by (simp add: env0_def p0_def)
  have h4: "phdrs prog_image = [] @ ?ph # []" by (simp add: prog_image_def)
  have h5: "vaddr ?ph \<le> push_bit 12 (drop_bit 12 (0x1234 :: u64))" by simp
  have h6: "push_bit 12 (drop_bit 12 (0x1234 :: u64)) < vaddr ?ph + memsz ?ph" by simp
  have h7: "\<forall>h\<in>set [] \<union> set []. \<not> (vaddr h \<le> push_bit 12 (drop_bit 12 (0x1234 :: u64))
             \<and> push_bit 12 (drop_bit 12 0x1234) < vaddr h + memsz h)" by simp
  have perm: "flags2perm 6 = PTE_W" by (simp add: flags2perm_def PTE_W_def)
  have pt0: "pagetable p0 = pages0" by (simp add: p0_def)
  have eq: "page_fault_handler env0 13 0x1234 (k0, p0)
          = (case loadseg (uvmalloc pages0 0x1000 PTE_W) 0 (contents prog_image) 4096 8192 of
               Inl f \<Rightarrow> Inl f | Inr pt' \<Rightarrow> Inr (k0, p0\<lparr>pagetable := pt'\<rparr>))"
    using page_fault_handler_loads_segment [OF h1 h2 h3 h4 h5 h6 h7, of k0]
    by (simp add: perm pt0)
  show ?thesis
    unfolding eq loadseg0 sum.case
    by (simp add: p0_def pages0_def)
qed

text \<open>
  Where the segment's file range starts at the faulting page and ends within it, the load
  does stay within that page: it holds the \<open>sz\<close> bytes of the file followed by the zeros
  that \<open>uvmalloc\<close> left, as in the specification's scenario of a 400-byte segment.
\<close>

lemma loadseg_within_page:
  assumes "0 < sz" and "sz \<le> PGSIZE" and "offset + sz \<le> length file"
      and "va AND NOT 4095 = va"
  shows "loadseg (uvmalloc pt va xperm) va file offset sz
           = Inr ((uvmalloc pt va xperm)
                    (va \<mapsto> \<lparr>perm = xperm,
                             bytes = take sz (drop offset file) @ replicate (PGSIZE - sz) 0\<rparr>))"
proof -
  let ?pt = "uvmalloc pt va xperm"
  let ?got = "take sz (drop offset file)"
  have page: "(va + of_nat 0) AND NOT 4095 = va" using assms(4) by simp
  have at: "?pt va = Some \<lparr>perm = xperm, bytes = replicate PGSIZE 0\<rparr>"
    by (simp add: uvmalloc_def)
  let ?pt' = "?pt(va \<mapsto> \<lparr>perm = xperm, bytes = ?got @ replicate (PGSIZE - sz) 0\<rparr>)"
  have stop: "loadseg_from ?pt' va file offset sz (0 + PGSIZE) = Inr ?pt'"
    using assms(2) by (subst loadseg_from.simps) simp
  have "loadseg_from ?pt va file offset sz 0 = loadseg_from ?pt' va file offset sz (0 + PGSIZE)"
    using assms(1,2,3)
    by (subst loadseg_from.simps, simp only: page at option.case)
      (auto simp add: Let_def memmove_def min_def)
  with stop show ?thesis by (simp add: loadseg_def)
qed

end
